theory Spec2Isabelle
  imports Main "HOL-Library.AList" "HOL-Library.Char_ord" "HOL-Library.List_Lexorder"
begin

section \<open>Pull event buffer (updtree: EventsPullStorage, EventPuller)\<close>

text \<open>
  Go's \<open>int\<close> counters are modelled as \<open>int\<close>: the counters count events and pullers
  and never come near the 64-bit bound. A panic is a value of \<open>pull_error\<close>.
\<close>

record 'e AccumulatedEvent =
  Event :: 'e
  readTimes :: int

record 'e EventsPullStorage =
  eventsPushed :: int
  events :: "'e AccumulatedEvent list"
  pullersCount :: int

record EventPuller =
  cursor :: int

datatype pull_error =
    InvalidEventIndex int
  | SliceBoundsOutOfRange

definition NewEventsPullStorage :: "'e EventsPullStorage" where
  "NewEventsPullStorage = \<lparr>eventsPushed = 0, events = [], pullersCount = 0\<rparr>"

text \<open>\<open>NewPuller\<close>: \<open>a.pullersCount++; return &EventPuller{acc: a}\<close>; the cursor field is
  left at Go's zero value.\<close>

definition NewPuller :: "'e EventsPullStorage \<Rightarrow> 'e EventsPullStorage \<times> EventPuller" where
  "NewPuller a = (a\<lparr>pullersCount := pullersCount a + 1\<rparr>, \<lparr>cursor = 0\<rparr>)"

definition Publish :: "'e EventsPullStorage \<Rightarrow> 'e \<Rightarrow> 'e EventsPullStorage" where
  "Publish a evt =
     (if pullersCount a = 0 then a
      else a\<lparr>eventsPushed := eventsPushed a + 1,
             events := events a @ [\<lparr>Event = evt, readTimes = 0\<rparr>]\<rparr>)"

definition markRead :: "'e AccumulatedEvent \<Rightarrow> 'e AccumulatedEvent" where
  "markRead e = e\<lparr>readTimes := readTimes e + 1\<rparr>"

text \<open>\<open>getEvents\<close>: the pulled slice aliases the tail of the buffer, so the increments of
  \<open>readTimes\<close> are seen both in the buffer and in the returned slice.\<close>

definition getEvents ::
  "'e EventsPullStorage \<Rightarrow> int \<Rightarrow> pull_error + ('e EventsPullStorage \<times> 'e AccumulatedEvent list)" where
  "getEvents a from =
     (let countToPull = eventsPushed a - from in
      if countToPull = 0 then Inr (a, [])
      else
        let firstEvtIdx = int (length (events a)) - countToPull in
        if firstEvtIdx < 0 then Inl (InvalidEventIndex firstEvtIdx)
        else if firstEvtIdx > int (length (events a)) then Inl SliceBoundsOutOfRange
        else
          let marked = take (nat firstEvtIdx) (events a) @ map markRead (drop (nat firstEvtIdx) (events a));
              pulledEvents = drop (nat firstEvtIdx) marked;
              countToErase = length (takeWhile (\<lambda>e. readTimes e = pullersCount a) marked)
          in Inr (a\<lparr>events := (if countToErase > 0 then drop countToErase marked else marked)\<rparr>,
                  pulledEvents))"

definition Len :: "'e EventsPullStorage \<Rightarrow> int" where
  "Len a = int (length (events a))"

definition Pull ::
  "EventPuller \<Rightarrow> 'e EventsPullStorage \<Rightarrow>
     pull_error + ('e EventsPullStorage \<times> EventPuller \<times> 'e AccumulatedEvent list)" where
  "Pull p a =
     (case getEvents a (cursor p) of
        Inl e \<Rightarrow> Inl e
      | Inr (a', evs) \<Rightarrow>
          if length evs = 0 then Inr (a', p, [])
          else Inr (a', p\<lparr>cursor := cursor p + int (length evs)\<rparr>, evs))"

text \<open>A buffer together with the pullers created on it; pullers are named by their
  position in the list.\<close>

record 'e pull_system =
  storage :: "'e EventsPullStorage"
  pullers :: "EventPuller list"

datatype 'e pull_op = NewPullerOp | PublishOp 'e | PullOp nat

definition newSystem :: "'e pull_system" where
  "newSystem = \<lparr>storage = NewEventsPullStorage, pullers = []\<rparr>"

fun pullStep ::
  "'e pull_system \<Rightarrow> 'e pull_op \<Rightarrow> pull_error + ('e pull_system \<times> 'e list)" where
  "pullStep s NewPullerOp =
     (let (a, p) = NewPuller (storage s) in Inr (\<lparr>storage = a, pullers = pullers s @ [p]\<rparr>, []))"
| "pullStep s (PublishOp e) = Inr (s\<lparr>storage := Publish (storage s) e\<rparr>, [])"
| "pullStep s (PullOp i) =
     (if i < length (pullers s) then
        (case Pull (pullers s ! i) (storage s) of
           Inl e \<Rightarrow> Inl e
         | Inr (a, p, evs) \<Rightarrow> Inr (\<lparr>storage = a, pullers = (pullers s)[i := p]\<rparr>, map Event evs))
      else Inr (s, []))"

text \<open>Running a list of operations; the result carries the payloads returned by each
  operation (empty for operations other than a pull).\<close>

fun pullRun ::
  "'e pull_system \<Rightarrow> 'e pull_op list \<Rightarrow> pull_error + ('e pull_system \<times> 'e list list)" where
  "pullRun s [] = Inr (s, [])"
| "pullRun s (op # ops) =
     (case pullStep s op of
        Inl e \<Rightarrow> Inl e
      | Inr (s', out) \<Rightarrow>
          (case pullRun s' ops of
             Inl e \<Rightarrow> Inl e
           | Inr (s'', outs) \<Rightarrow> Inr (s'', out # outs)))"

section \<open>Pull event buffer: results\<close>

text \<open>
  C4. The claim says that a new puller's cursor starts at the buffer's total-pushed count,
  so that it sees only events published after its creation. In the code the cursor starts
  at 0: a puller created after one event was published has cursor 0 while
  \<open>eventsPushed\<close> is 1, its first pull returns the event published before it was
  created, and, once that event has been reclaimed, its first pull panics with
  \<open>invalid event index\<close>.
\<close>

theorem C4_late_puller_cursor_zero:
  "cursor (snd (NewPuller (Publish (fst (NewPuller (NewEventsPullStorage :: int EventsPullStorage))) 1))) = 0
   \<and> eventsPushed (fst (NewPuller (Publish (fst (NewPuller (NewEventsPullStorage :: int EventsPullStorage))) 1))) = 1
   \<and> pullRun (newSystem :: int pull_system) [NewPullerOp, PublishOp 1, NewPullerOp, PullOp 1]
       = Inr (\<lparr>storage = \<lparr>eventsPushed = 1, events = [\<lparr>Event = 1, readTimes = 1\<rparr>], pullersCount = 2\<rparr>,
               pullers = [\<lparr>cursor = 0\<rparr>, \<lparr>cursor = 1\<rparr>]\<rparr>, [[], [], [], [1]])
   \<and> pullRun (newSystem :: int pull_system) [NewPullerOp, PublishOp 1, PullOp 0, NewPullerOp, PullOp 1]
       = Inl (InvalidEventIndex (- 1))"
  by (simp add: NewPuller_def Publish_def NewEventsPullStorage_def newSystem_def Pull_def
      getEvents_def markRead_def Let_def)


section \<open>Pull event buffer: retention\<close>

text \<open>
  Slots are numbered over the buffer's lifetime, from 0. The buffer holds the last
  \<open>length events\<close> of the \<open>eventsPushed\<close> slots; \<open>bufferBase\<close> is the number of the first
  slot still held. A puller with cursor \<open>c\<close> has read the slots below \<open>c\<close>.
\<close>

definition bufferBase :: "'e pull_system \<Rightarrow> int" where
  "bufferBase s = eventsPushed (storage s) - int (length (events (storage s)))"

definition slotRetained :: "'e pull_system \<Rightarrow> int \<Rightarrow> bool" where
  "slotRetained s i = (bufferBase s \<le> i \<and> i < eventsPushed (storage s))"

definition unreadBySome :: "'e pull_system \<Rightarrow> int \<Rightarrow> bool" where
  "unreadBySome s i = (\<exists>p \<in> set (pullers s). cursor p \<le> i)"

fun earlyPullers :: "'e pull_system \<Rightarrow> 'e pull_op list \<Rightarrow> bool" where
  "earlyPullers s [] = True"
| "earlyPullers s (op # ops) =
     ((op = NewPullerOp \<longrightarrow> eventsPushed (storage s) = 0) \<and>
      (case pullStep s op of Inl e \<Rightarrow> True | Inr (s', out) \<Rightarrow> earlyPullers s' ops))"

definition pullInv :: "'e pull_system \<Rightarrow> bool" where
  "pullInv s =
     (0 \<le> bufferBase s \<and>
      pullersCount (storage s) = int (length (pullers s)) \<and>
      (\<forall>p \<in> set (pullers s). bufferBase s \<le> cursor p \<and> cursor p \<le> eventsPushed (storage s)) \<and>
      (events (storage s) \<noteq> [] \<longrightarrow> (\<exists>p \<in> set (pullers s). cursor p = bufferBase s)) \<and>
      (\<forall>j < length (events (storage s)).
         readTimes (events (storage s) ! j) =
           int (length (filter (\<lambda>p. bufferBase s + int j < cursor p) (pullers s)))))"

lemma pullInv_new: "pullInv newSystem"
  by (simp add: pullInv_def newSystem_def NewEventsPullStorage_def bufferBase_def)

lemma pullInv_retention:
  assumes "pullInv s" "0 \<le> i" "i < eventsPushed (storage s)"
  shows "slotRetained s i = unreadBySome s i"
proof (cases "bufferBase s \<le> i")
  case True
  then have ne: "events (storage s) \<noteq> []" using assms(3) by (auto simp: bufferBase_def)
  then obtain p where p: "p \<in> set (pullers s)" "cursor p = bufferBase s"
    using assms(1) by (auto simp: pullInv_def)
  have "cursor p \<le> i" using p(2) True by simp
  then have "unreadBySome s i" using p(1) unfolding unreadBySome_def by blast
  then show ?thesis using True assms(3) by (simp add: slotRetained_def)
next
  case False
  then show ?thesis using assms(1) by (fastforce simp: slotRetained_def unreadBySome_def pullInv_def)
qed

lemma pullInv_NewPuller:
  assumes "pullInv s" "eventsPushed (storage s) = 0" "pullStep s NewPullerOp = Inr (s', out)"
  shows "pullInv s'"
proof -
  have e: "events (storage s) = []" using assms(1,2) by (auto simp: pullInv_def bufferBase_def)
  have s': "s' = \<lparr>storage = (storage s)\<lparr>pullersCount := pullersCount (storage s) + 1\<rparr>,
                 pullers = pullers s @ [\<lparr>cursor = 0\<rparr>]\<rparr>"
    using assms(3) by (auto simp: NewPuller_def)
  show ?thesis using assms(1,2) e unfolding s' by (auto simp: pullInv_def bufferBase_def)
qed

lemma pullInv_Publish:
  assumes "pullInv s" "pullStep s (PublishOp e) = Inr (s', out)"
  shows "pullInv s'"
proof (cases "pullersCount (storage s) = 0")
  case True
  then have "s' = s" using assms(2) by (auto simp: Publish_def)
  then show ?thesis using assms(1) by simp
next
  case False
  let ?a = "storage s"
  have s': "s' = s\<lparr>storage := ?a\<lparr>eventsPushed := eventsPushed ?a + 1,
             events := events ?a @ [\<lparr>Event = e, readTimes = 0\<rparr>]\<rparr>\<rparr>"
    using assms(2) False by (auto simp: Publish_def)
  have b: "bufferBase s' = bufferBase s" unfolding s' by (simp add: bufferBase_def)
  have ne: "pullers s \<noteq> []" using False assms(1) by (auto simp: pullInv_def)
  have c1: "\<exists>p \<in> set (pullers s). cursor p = bufferBase s"
  proof (cases "events ?a = []")
    case True
    then have "bufferBase s = eventsPushed ?a" by (simp add: bufferBase_def)
    moreover obtain p where "p \<in> set (pullers s)" using ne by (cases "pullers s") auto
    ultimately show ?thesis using assms(1) by (fastforce simp: pullInv_def)
  next
    case False
    then show ?thesis using assms(1) by (auto simp: pullInv_def)
  qed
  have c2: "\<forall>j < length (events (storage s')).
         readTimes (events (storage s') ! j) =
           int (length (filter (\<lambda>p. bufferBase s' + int j < cursor p) (pullers s')))"
  proof (intro allI impI)
    fix j assume j: "j < length (events (storage s'))"
    show "readTimes (events (storage s') ! j) =
           int (length (filter (\<lambda>p. bufferBase s' + int j < cursor p) (pullers s')))"
    proof (cases "j < length (events ?a)")
      case True
      then show ?thesis using assms(1) unfolding b unfolding s'
        by (simp add: pullInv_def nth_append)
    next
      case False
      then have jj: "j = length (events ?a)" using j unfolding s' by simp
      have "\<forall>p \<in> set (pullers s). \<not> (bufferBase s + int j < cursor p)"
        using assms(1) unfolding jj by (auto simp: pullInv_def bufferBase_def)
      then have "filter (\<lambda>p. bufferBase s + int j < cursor p) (pullers s) = []"
        by (simp add: filter_empty_conv)
      then show ?thesis unfolding b unfolding s' using jj by (simp add: nth_append)
    qed
  qed
  show ?thesis
    unfolding pullInv_def
    using assms(1) c1 c2 unfolding b unfolding s'
    by (auto simp: pullInv_def)
qed


lemma filter_update_count:
  "i < length xs \<Longrightarrow>
   int (length (filter P (xs[i := y]))) =
     int (length (filter P xs)) + (if P y then 1 else 0) - (if P (xs ! i) then 1 else 0)"
proof (induction xs arbitrary: i)
  case Nil
  then show ?case by simp
next
  case (Cons x xs)
  show ?case
  proof (cases i)
    case 0
    then show ?thesis by simp
  next
    case (Suc k)
    then have "k < length xs" using Cons.prems by simp
    from Cons.IH[OF this] show ?thesis using Suc by (auto split: if_splits)
  qed
qed

lemma filter_all_iff: "(length (filter P xs) = length xs) = (\<forall>x \<in> set xs. P x)"
proof (induction xs)
  case Nil
  then show ?case by simp
next
  case (Cons x xs)
  have "length (filter P xs) \<noteq> Suc (length xs)"
    using length_filter_le[of P xs] by linarith
  then show ?case using Cons by (cases "P x") auto
qed

lemma pullStep_Pull_idle:
  assumes "i < length (pullers s)" "cursor (pullers s ! i) = eventsPushed (storage s)"
  shows "pullStep s (PullOp i) = Inr (s, [])"
  using assms by (simp add: Pull_def getEvents_def)

lemma pullStep_Pull_active:
  assumes inv: "pullInv s" and i: "i < length (pullers s)"
    and c: "cursor (pullers s ! i) \<noteq> eventsPushed (storage s)"
  shows "pullStep s (PullOp i) =
     Inr (\<lparr>storage = (storage s)\<lparr>events :=
              drop (length (takeWhile (\<lambda>e. readTimes e = pullersCount (storage s))
                      (take (nat (cursor (pullers s ! i) - bufferBase s)) (events (storage s)) @
                       map markRead (drop (nat (cursor (pullers s ! i) - bufferBase s)) (events (storage s))))))
                (take (nat (cursor (pullers s ! i) - bufferBase s)) (events (storage s)) @
                 map markRead (drop (nat (cursor (pullers s ! i) - bufferBase s)) (events (storage s))))\<rparr>,
            pullers = (pullers s)[i := \<lparr>cursor = eventsPushed (storage s)\<rparr>]\<rparr>,
          map Event (drop (nat (cursor (pullers s ! i) - bufferBase s)) (events (storage s))))"
proof -
  let ?a = "storage s"
  let ?p = "pullers s ! i"
  have pin: "?p \<in> set (pullers s)" using i by simp
  have range: "bufferBase s \<le> cursor ?p" "cursor ?p \<le> eventsPushed ?a"
    using inv pin by (auto simp: pullInv_def)
  have f: "int (length (events ?a)) - (eventsPushed ?a - cursor ?p) = cursor ?p - bufferBase s"
    by (simp add: bufferBase_def)
  have f0: "0 \<le> cursor ?p - bufferBase s" "cursor ?p - bufferBase s \<le> int (length (events ?a))"
    using range by (auto simp: bufferBase_def)
  have lt: "nat (cursor ?p - bufferBase s) < length (events ?a)"
    using range c by (auto simp: bufferBase_def)
  have cur: "cursor ?p + int (length (events ?a) - nat (cursor ?p - bufferBase s)) = eventsPushed ?a"
    using range by (auto simp: bufferBase_def)
  have pe: "?p\<lparr>cursor := eventsPushed ?a\<rparr> = \<lparr>cursor = eventsPushed ?a\<rparr>" by simp
  have me: "map (Event \<circ> markRead) xs = map Event xs" for xs :: "'a AccumulatedEvent list"
    by (simp add: markRead_def)
  have eb: "int (length (events ?a)) + bufferBase s = eventsPushed ?a"
    by (simp add: bufferBase_def)
  have dm: "drop (nat (cursor ?p - bufferBase s))
              (take (nat (cursor ?p - bufferBase s)) (events ?a) @
               map markRead (drop (nat (cursor ?p - bufferBase s)) (events ?a)))
            = map markRead (drop (nat (cursor ?p - bufferBase s)) (events ?a))"
    using lt by simp
  show ?thesis
    using i c f0 lt
    by (simp add: Pull_def getEvents_def Let_def f cur pe me dm eb del: take_append drop_append)
qed


lemma pullInv_Pull_active:
  assumes inv: "pullInv s" and i: "i < length (pullers s)"
    and c: "cursor (pullers s ! i) \<noteq> eventsPushed (storage s)"
    and f: "f = nat (cursor (pullers s ! i) - bufferBase s)"
    and marked: "marked = take f (events (storage s)) @ map markRead (drop f (events (storage s)))"
    and k: "k = length (takeWhile (\<lambda>e. readTimes e = pullersCount (storage s)) marked)"
    and s': "s' = \<lparr>storage = (storage s)\<lparr>events := drop k marked\<rparr>,
                   pullers = (pullers s)[i := \<lparr>cursor = eventsPushed (storage s)\<rparr>]\<rparr>"
  shows "pullInv s'"
    and "bufferBase s' = bufferBase s + int k"
    and "0 < k \<Longrightarrow> cursor (pullers s ! i) = bufferBase s"
    and "map Event (events (storage s')) = drop k (map Event (events (storage s)))"
proof -
  let ?a = "storage s"
  let ?E = "eventsPushed ?a"
  let ?b = "bufferBase s"
  let ?p = "pullers s ! i"
  let ?n = "length (events ?a)"
  let ?ps = "(pullers s)[i := \<lparr>cursor = ?E\<rparr>]"
  have pin: "?p \<in> set (pullers s)" using i by simp
  have range: "?b \<le> cursor ?p" "cursor ?p < ?E"
    using inv pin c by (auto simp: pullInv_def)
  have bE: "?b + int ?n = ?E" by (simp add: bufferBase_def)
  have fn: "f < ?n" using range bE f by linarith
  have fi: "int f = cursor ?p - ?b" using range f by simp
  have lm: "length marked = ?n" unfolding marked using fn by simp
  have kn: "k \<le> ?n" unfolding k using length_takeWhile_le[of _ marked] lm by simp
  have rt: "readTimes (marked ! j) = readTimes (events ?a ! j) + (if f \<le> j then 1 else 0)"
    if "j < ?n" for j
    using that fn unfolding marked by (auto simp: nth_append markRead_def)
  have cnt: "int (length (filter (\<lambda>q. ?b + int j < cursor q) ?ps)) =
             int (length (filter (\<lambda>q. ?b + int j < cursor q) (pullers s))) + (if f \<le> j then 1 else 0)"
    if "j < ?n" for j
  proof -
    have "?b + int j < ?E" using that bE by linarith
    moreover have "(?b + int j < cursor ?p) = (j < f)" using fi by linarith
    ultimately show ?thesis
      using filter_update_count[OF i, of "\<lambda>q. ?b + int j < cursor q" "\<lparr>cursor = ?E\<rparr>"]
      by auto
  qed
  have old: "readTimes (events ?a ! j) = int (length (filter (\<lambda>q. ?b + int j < cursor q) (pullers s)))"
    if "j < ?n" for j
    using inv that by (simp add: pullInv_def)
  have new: "readTimes (marked ! j) = int (length (filter (\<lambda>q. ?b + int j < cursor q) ?ps))"
    if "j < ?n" for j
    using rt[OF that] cnt[OF that] old[OF that] by simp
  have pc: "pullersCount ?a = int (length ?ps)" using inv by (simp add: pullInv_def)
  have erased: "\<forall>q \<in> set ?ps. ?b + int j < cursor q" if "j < k" for j
  proof -
    have "readTimes (marked ! j) = pullersCount ?a"
      using that takeWhile_nth[of j "\<lambda>e. readTimes e = pullersCount ?a" marked]
        set_takeWhileD[OF nth_mem, of j "\<lambda>e. readTimes e = pullersCount ?a" marked]
      unfolding k by simp
    moreover have "j < ?n" using that kn by simp
    ultimately have "length (filter (\<lambda>q. ?b + int j < cursor q) ?ps) = length ?ps"
      using new pc by simp
    then show ?thesis by (simp only: filter_all_iff)
  qed
  have kept: "\<exists>q \<in> set ?ps. \<not> (?b + int k < cursor q)" if "k < ?n"
  proof -
    have "readTimes (marked ! k) \<noteq> pullersCount ?a"
      using that lm nth_length_takeWhile[of "\<lambda>e. readTimes e = pullersCount ?a" marked]
      unfolding k by simp
    then have "length (filter (\<lambda>q. ?b + int k < cursor q) ?ps) \<noteq> length ?ps"
      using new[OF that] pc by simp
    then show ?thesis by (simp only: filter_all_iff) blast
  qed
  have b': "bufferBase s' = ?b + int k"
    unfolding s' using kn lm by (simp add: bufferBase_def)
  show "bufferBase s' = ?b + int k" by (rule b')
  have lo: "\<forall>q \<in> set ?ps. ?b + int k \<le> cursor q"
  proof (cases k)
    case 0
    have "\<forall>q \<in> set (pullers s). ?b \<le> cursor q" using inv by (simp add: pullInv_def)
    moreover have "?b \<le> ?E" using bE by linarith
    ultimately show ?thesis using 0 by (auto dest!: set_update_subset_insert[THEN subsetD])
  next
    case (Suc m)
    then have "\<forall>q \<in> set ?ps. ?b + int m < cursor q" using erased[of m] by simp
    then show ?thesis using Suc by auto
  qed
  have hi: "\<forall>q \<in> set ?ps. cursor q \<le> ?E"
  proof -
    have "\<forall>q \<in> set (pullers s). cursor q \<le> ?E" using inv by (simp add: pullInv_def)
    then show ?thesis by (auto dest!: set_update_subset_insert[THEN subsetD])
  qed
  have slowest: "\<exists>q \<in> set ?ps. cursor q = ?b + int k" if "k < ?n"
    using kept[OF that] lo by (metis linorder_not_less order_antisym)
  have rts: "\<forall>j < length (drop k marked).
      readTimes (drop k marked ! j) =
        int (length (filter (\<lambda>q. ?b + int k + int j < cursor q) ?ps))"
  proof (intro allI impI)
    fix j assume "j < length (drop k marked)"
    then have "k + j < ?n" using lm by simp
    from new[OF this] show "readTimes (drop k marked ! j) =
        int (length (filter (\<lambda>q. ?b + int k + int j < cursor q) ?ps))"
      using kn lm by (simp add: add.assoc)
  qed
  show "pullInv s'"
    unfolding pullInv_def b'
    unfolding s'
    using inv lo hi slowest rts pc kn lm
    by (simp add: pullInv_def)
  show "cursor ?p = ?b" if "0 < k"
  proof -
    have "\<forall>q \<in> set ?ps. ?b < cursor q" using erased[of 0] that by simp
    moreover have "events ?a \<noteq> []" using fn by auto
    then obtain q where q: "q \<in> set (pullers s)" "cursor q = ?b"
      using inv by (auto simp: pullInv_def)
    then obtain m where m: "m < length (pullers s)" "pullers s ! m = q"
      by (auto simp: in_set_conv_nth)
    ultimately have "m = i"
      using q(2) by (metis length_list_update less_irrefl nth_list_update_neq nth_mem)
    then show ?thesis using m q by simp
  qed
  have "map Event marked = map Event (events ?a)"
  proof -
    have "map Event (map markRead xs) = map Event xs" for xs :: "'a AccumulatedEvent list"
      by (simp add: markRead_def)
    then have "map Event marked = map Event (take f (events ?a)) @ map Event (drop f (events ?a))"
      unfolding marked by simp
    then show ?thesis by (simp flip: map_append)
  qed
  then have "drop k (map Event marked) = drop k (map Event (events ?a))" by simp
  moreover have "map Event (events (storage s')) = drop k (map Event marked)"
    unfolding s' by (simp add: drop_map)
  ultimately show "map Event (events (storage s')) = drop k (map Event (events ?a))" by simp
qed


definition slowestAdvanced :: "'e pull_system \<Rightarrow> 'e pull_op \<Rightarrow> 'e pull_system \<Rightarrow> bool" where
  "slowestAdvanced s op s' =
     (\<exists>i. op = PullOp i \<and> i < length (pullers s) \<and>
          (\<forall>p \<in> set (pullers s). cursor (pullers s ! i) \<le> cursor p) \<and>
          (\<forall>p \<in> set (pullers s'). cursor (pullers s ! i) < cursor p) \<and>
          (\<exists>k > 0. map Event (events (storage s')) = drop k (map Event (events (storage s)))))"

lemma pullInv_step:
  assumes inv: "pullInv s" and early: "op = NewPullerOp \<longrightarrow> eventsPushed (storage s) = 0"
  shows "\<exists>s' out. pullStep s op = Inr (s', out) \<and> pullInv s' \<and>
           (length (events (storage s')) < length (events (storage s)) \<longrightarrow> slowestAdvanced s op s')"
proof (cases op)
  case NewPullerOp
  obtain s' out where st: "pullStep s NewPullerOp = Inr (s', out)"
    by (auto simp: NewPuller_def)
  have "length (events (storage s')) = length (events (storage s))"
    using st by (auto simp: NewPuller_def)
  then show ?thesis
    using pullInv_NewPuller[OF inv _ st] early NewPullerOp st by auto
next
  case (PublishOp e)
  obtain s' out where st: "pullStep s (PublishOp e) = Inr (s', out)" by simp
  have "length (events (storage s)) \<le> length (events (storage s'))"
    using st by (auto simp: Publish_def)
  then show ?thesis
    using pullInv_Publish[OF inv st] PublishOp st by auto
next
  case (PullOp i)
  show ?thesis
  proof (cases "i < length (pullers s)")
    case False
    then show ?thesis using inv PullOp by simp
  next
    case i: True
    show ?thesis
    proof (cases "cursor (pullers s ! i) = eventsPushed (storage s)")
      case True
      then show ?thesis using pullStep_Pull_idle[OF i True] inv PullOp by simp
    next
      case c: False
      define f where "f = nat (cursor (pullers s ! i) - bufferBase s)"
      define marked where
        "marked = take f (events (storage s)) @ map markRead (drop f (events (storage s)))"
      define k where
        "k = length (takeWhile (\<lambda>e. readTimes e = pullersCount (storage s)) marked)"
      define s' where
        "s' = \<lparr>storage = (storage s)\<lparr>events := drop k marked\<rparr>,
               pullers = (pullers s)[i := \<lparr>cursor = eventsPushed (storage s)\<rparr>]\<rparr>"
      note facts = pullInv_Pull_active[OF inv i c f_def marked_def k_def s'_def]
      have st: "pullStep s (PullOp i) =
          Inr (s', map Event (drop f (events (storage s))))"
        using pullStep_Pull_active[OF inv i c]
        unfolding s'_def k_def marked_def f_def by simp
      have adv: "slowestAdvanced s op s'" if less: "length (events (storage s')) < length (events (storage s))"
      proof -
        have "length (map Event (events (storage s'))) < length (map Event (events (storage s)))"
          using less by simp
        then have kpos: "0 < k" unfolding facts(4) by (cases k) auto
        have ci: "cursor (pullers s ! i) = bufferBase s" using facts(3)[OF kpos] .
        have lo: "\<forall>p \<in> set (pullers s). bufferBase s \<le> cursor p"
          using inv by (simp add: pullInv_def)
        have hi: "\<forall>p \<in> set (pullers s'). bufferBase s' \<le> cursor p"
          using facts(1) by (simp add: pullInv_def)
        have hi': "\<forall>p \<in> set (pullers s'). bufferBase s < cursor p"
          using hi kpos unfolding facts(2) by auto
        show ?thesis
          unfolding slowestAdvanced_def
          using PullOp i ci lo hi' kpos facts(4) by auto
      qed
      show ?thesis using st facts(1) adv PullOp by auto
    qed
  qed
qed

lemma pullRun_inv:
  "pullInv s \<Longrightarrow> earlyPullers s ops \<Longrightarrow> \<exists>s' outs. pullRun s ops = Inr (s', outs) \<and> pullInv s'"
proof (induction ops arbitrary: s)
  case Nil
  then show ?case by simp
next
  case (Cons op ops)
  from Cons.prems(2) have e: "op = NewPullerOp \<longrightarrow> eventsPushed (storage s) = 0" by simp
  from pullInv_step[OF Cons.prems(1) e] obtain s1 out
    where st: "pullStep s op = Inr (s1, out)" and inv1: "pullInv s1" by blast
  from Cons.prems(2) st have "earlyPullers s1 ops" by simp
  from Cons.IH[OF inv1 this] show ?case using st by auto
qed

lemma earlyPullers_snoc:
  "earlyPullers s (ops @ [op]) \<Longrightarrow> pullRun s ops = Inr (s1, outs) \<Longrightarrow>
     earlyPullers s ops \<and> (op = NewPullerOp \<longrightarrow> eventsPushed (storage s1) = 0)"
proof (induction ops arbitrary: s outs)
  case Nil
  then show ?case by simp
next
  case (Cons x xs)
  then show ?case by (auto split: sum.splits prod.splits)
qed

lemma earlyPullers_prefix:
  "earlyPullers s (ops @ ops') \<Longrightarrow> earlyPullers s ops"
  by (induction ops arbitrary: s) (auto split: sum.splits prod.splits)

definition S5_ops :: "int pull_op list" where
  "S5_ops = [NewPullerOp, NewPullerOp, PublishOp 1, PublishOp 2, PullOp 0,
             PublishOp 3, PublishOp 4, PullOp 1, PullOp 0]"

lemmas pull_eval = NewPuller_def Publish_def NewEventsPullStorage_def newSystem_def Pull_def
      getEvents_def markRead_def Let_def Len_def

lemma S5_run:
  "map_sum id (\<lambda>(s, outs). (Len (storage s), outs)) (pullRun newSystem (take 5 S5_ops))
     = Inr (2, [[], [], [], [], [1, 2]])"
  "map_sum id (\<lambda>(s, outs). (Len (storage s), outs)) (pullRun newSystem (take 8 S5_ops))
     = Inr (2, [[], [], [], [], [1, 2], [], [], [1, 2, 3, 4]])"
  "map_sum id (\<lambda>(s, outs). (Len (storage s), outs)) (pullRun newSystem S5_ops)
     = Inr (0, [[], [], [], [], [1, 2], [], [], [1, 2, 3, 4], [3, 4]])"
  by (simp_all add: S5_ops_def pull_eval)


text \<open>
  C8 (as amended). In every run in which each puller is created while no event has been
  published yet, no operation panics, and after every operation a slot is retained iff some
  registered puller has not read it; the buffer gets shorter only in a pull by a puller that
  was slowest, after which every cursor is past that puller's old cursor and a non-empty
  prefix of the buffer is gone. Scenario S5 runs as the specification says: pulls return
  [1,2], [1,2,3,4] and [3,4], with buffer lengths 2, 2 and 0.
\<close>

theorem C8_retention_when_pullers_precede_events:
  assumes "earlyPullers newSystem (ops @ [op])"
  shows "(\<exists>s outs s' out.
           pullRun newSystem ops = Inr (s, outs) \<and> pullStep s op = Inr (s', out) \<and>
           (\<forall>i. 0 \<le> i \<and> i < eventsPushed (storage s') \<longrightarrow> slotRetained s' i = unreadBySome s' i) \<and>
           (length (events (storage s')) < length (events (storage s)) \<longrightarrow> slowestAdvanced s op s'))
         \<and> map_sum id (\<lambda>(s, outs). (Len (storage s), outs)) (pullRun newSystem (take 5 S5_ops))
             = Inr (2, [[], [], [], [], [1, 2]])
         \<and> map_sum id (\<lambda>(s, outs). (Len (storage s), outs)) (pullRun newSystem (take 8 S5_ops))
             = Inr (2, [[], [], [], [], [1, 2], [], [], [1, 2, 3, 4]])
         \<and> map_sum id (\<lambda>(s, outs). (Len (storage s), outs)) (pullRun newSystem S5_ops)
             = Inr (0, [[], [], [], [], [1, 2], [], [], [1, 2, 3, 4], [3, 4]])"
proof -
  have e: "earlyPullers newSystem ops" using assms by (rule earlyPullers_prefix)
  from pullRun_inv[OF pullInv_new e] obtain s outs
    where run: "pullRun newSystem ops = Inr (s, outs)" and inv: "pullInv s" by blast
  from earlyPullers_snoc[OF assms run]
  have g: "op = NewPullerOp \<longrightarrow> eventsPushed (storage s) = 0" by simp
  from pullInv_step[OF inv g] obtain s' out
    where st: "pullStep s op = Inr (s', out)" and inv': "pullInv s'"
      and adv: "length (events (storage s')) < length (events (storage s)) \<longrightarrow> slowestAdvanced s op s'"
    by blast
  have "\<forall>i. 0 \<le> i \<and> i < eventsPushed (storage s') \<longrightarrow> slotRetained s' i = unreadBySome s' i"
    using pullInv_retention[OF inv'] by blast
  then have "\<exists>s outs s' out.
           pullRun newSystem ops = Inr (s, outs) \<and> pullStep s op = Inr (s', out) \<and>
           (\<forall>i. 0 \<le> i \<and> i < eventsPushed (storage s') \<longrightarrow> slotRetained s' i = unreadBySome s' i) \<and>
           (length (events (storage s')) < length (events (storage s)) \<longrightarrow> slowestAdvanced s op s')"
    using run st adv by blast
  then show ?thesis using S5_run by simp
qed

theorem C8_retention_witness:
  "earlyPullers newSystem (take 8 S5_ops @ [PullOp 0]) \<and>
   (\<exists>s outs s' out.
       pullRun newSystem (take 8 S5_ops) = Inr (s, outs) \<and> pullStep s (PullOp 0) = Inr (s', out) \<and>
       (\<forall>i. 0 \<le> i \<and> i < eventsPushed (storage s') \<longrightarrow> slotRetained s' i = unreadBySome s' i) \<and>
       (length (events (storage s')) < length (events (storage s)) \<longrightarrow> slowestAdvanced s (PullOp 0) s'))"
proof -
  have h: "earlyPullers newSystem (take 8 S5_ops @ [PullOp 0])"
    by (simp add: S5_ops_def pull_eval)
  from C8_retention_when_pullers_precede_events[OF h] h show ?thesis by blast
qed

text \<open>
  The claim as stated, over every state reachable by \<open>NewPuller\<close>, \<open>Publish\<close> and
  \<open>Pull\<close>, fails when a puller is created late: after one puller has read and released
  slot 0, a second puller is registered that has not read slot 0, and the slot is gone.
\<close>

theorem C8_late_puller_counterexample:
  "pullRun (newSystem :: int pull_system) [NewPullerOp, PublishOp 1, PullOp 0, NewPullerOp] =
     Inr (\<lparr>storage = \<lparr>eventsPushed = 1, events = [], pullersCount = 2\<rparr>,
           pullers = [\<lparr>cursor = 1\<rparr>, \<lparr>cursor = 0\<rparr>]\<rparr>, [[], [], [1], []])
   \<and> \<not> slotRetained \<lparr>storage = \<lparr>eventsPushed = 1, events = [] :: int AccumulatedEvent list, pullersCount = 2\<rparr>,
           pullers = [\<lparr>cursor = 1\<rparr>, \<lparr>cursor = 0\<rparr>]\<rparr> 0
   \<and> unreadBySome \<lparr>storage = \<lparr>eventsPushed = 1, events = [] :: int AccumulatedEvent list, pullersCount = 2\<rparr>,
           pullers = [\<lparr>cursor = 1\<rparr>, \<lparr>cursor = 0\<rparr>]\<rparr> 0"
  by (simp add: pull_eval slotRetained_def unreadBySome_def bufferBase_def)


section \<open>Stable topological sort (utils: StableTopologicalSortWithSortedKeys)\<close>

text \<open>
  A Go map \<open>map[Key][]Key\<close> is an association list with distinct keys, so that
  \<open>len(graph)\<close> is its length; \<open>graph[key]\<close> of a missing key is the empty slice.
  The \<open>inDegree\<close> map, read with Go's zero default, is a total function.
\<close>

type_synonym 'k Graph = "('k \<times> 'k list) list"

definition graphAt :: "'k Graph \<Rightarrow> 'k \<Rightarrow> 'k list" where
  "graphAt g k = (case map_of g k of None \<Rightarrow> [] | Some ds \<Rightarrow> ds)"

datatype 'k sort_error = WrongSortedKeys nat nat | CyclicDependencies "'k list"

fun countDependencies :: "'k list \<Rightarrow> ('k \<Rightarrow> int) \<Rightarrow> ('k \<Rightarrow> int)" where
  "countDependencies [] inDegree = inDegree"
| "countDependencies (dependency # rest) inDegree =
     countDependencies rest (inDegree(dependency := inDegree dependency + 1))"

fun initInDegree :: "'k Graph \<Rightarrow> 'k list \<Rightarrow> ('k \<Rightarrow> int) \<Rightarrow> ('k \<Rightarrow> int)" where
  "initInDegree g [] inDegree = inDegree"
| "initInDegree g (key # rest) inDegree =
     initInDegree g rest (countDependencies (graphAt g key) inDegree)"

fun relaxNeighbors :: "'k list \<Rightarrow> ('k \<Rightarrow> int) \<Rightarrow> 'k list \<Rightarrow> ('k \<Rightarrow> int) \<times> 'k list" where
  "relaxNeighbors [] inDegree queue = (inDegree, queue)"
| "relaxNeighbors (neighbor # rest) inDegree queue =
     (let inDegree' = inDegree(neighbor := inDegree neighbor - 1)
      in relaxNeighbors rest inDegree'
           (if inDegree' neighbor = 0 then queue @ [neighbor] else queue))"

definition graphTargets :: "'k Graph \<Rightarrow> 'k set" where
  "graphTargets g = (\<Union>(k, ds) \<in> set g. set ds)"

definition kahnMeasure :: "'k Graph \<times> ('k \<Rightarrow> int) \<times> 'k list \<times> 'k list \<Rightarrow> nat" where
  "kahnMeasure = (\<lambda>(g, inDegree, queue, result).
      length queue + card {v \<in> graphTargets g. 0 < inDegree v})"

lemma finite_graphTargets: "finite (graphTargets g)"
  by (auto simp: graphTargets_def)

lemma graphAt_targets: "set (graphAt g k) \<subseteq> graphTargets g"
proof
  fix x assume "x \<in> set (graphAt g k)"
  then obtain ds where "map_of g k = Some ds" "x \<in> set ds"
    by (cases "map_of g k") (auto simp: graphAt_def)
  then have "(k, ds) \<in> set g" "x \<in> set ds" by (auto dest: map_of_SomeD)
  then show "x \<in> graphTargets g" unfolding graphTargets_def by blast
qed

lemma relaxNeighbors_measure:
  assumes "finite T" "set ns \<subseteq> T" "relaxNeighbors ns inDegree queue = (inDegree', queue')"
  shows "length queue' + card {v \<in> T. 0 < inDegree' v} = length queue + card {v \<in> T. 0 < inDegree v}"
  using assms
proof (induction ns arbitrary: inDegree queue)
  case Nil
  then show ?case by simp
next
  case (Cons n ns)
  let ?d = "inDegree(n := inDegree n - 1)"
  let ?q = "if ?d n = 0 then queue @ [n] else queue"
  have rec: "relaxNeighbors ns ?d ?q = (inDegree', queue')"
    using Cons.prems(3) by (simp add: Let_def)
  have nT: "n \<in> T" and sub: "set ns \<subseteq> T" using Cons.prems(2) by auto
  have IH: "length queue' + card {v \<in> T. 0 < inDegree' v} = length ?q + card {v \<in> T. 0 < ?d v}"
    by (rule Cons.IH[OF Cons.prems(1) sub rec])
  have step: "length ?q + card {v \<in> T. 0 < ?d v} = length queue + card {v \<in> T. 0 < inDegree v}"
  proof (cases "inDegree n = 1")
    case True
    have eq: "{v \<in> T. 0 < ?d v} = {v \<in> T. 0 < inDegree v} - {n}" using True by auto
    have "n \<in> {v \<in> T. 0 < inDegree v}" using True nT by simp
    moreover have "finite {v \<in> T. 0 < inDegree v}" using Cons.prems(1) by simp
    ultimately have "card ({v \<in> T. 0 < inDegree v} - {n}) + 1 = card {v \<in> T. 0 < inDegree v}"
      by (metis One_nat_def Suc_eq_plus1 card_Suc_Diff1)
    then show ?thesis using True unfolding eq by simp
  next
    case False
    have eq: "{v \<in> T. 0 < ?d v} = {v \<in> T. 0 < inDegree v}" using False by auto
    show ?thesis using False unfolding eq by simp
  qed
  show ?case using IH step by simp
qed

function kahnLoop :: "'k Graph \<Rightarrow> ('k \<Rightarrow> int) \<Rightarrow> 'k list \<Rightarrow> 'k list \<Rightarrow> 'k list" where
  "kahnLoop g inDegree [] result = result"
| "kahnLoop g inDegree (node # queue) result =
     (case relaxNeighbors (graphAt g node) inDegree queue of
        (inDegree', queue') \<Rightarrow> kahnLoop g inDegree' queue' (result @ [node]))"
  by pat_completeness auto
termination
proof (relation "measure kahnMeasure")
  show "wf (measure kahnMeasure)" by simp
next
  fix g :: "'k Graph" and inDegree node queue result x1 x2
  assume "(x1, x2) = relaxNeighbors (graphAt g node) inDegree queue"
  then have "relaxNeighbors (graphAt g node) inDegree queue = (x1, x2)" by simp
  from relaxNeighbors_measure[OF finite_graphTargets graphAt_targets this]
  show "((g, x1, x2, result @ [node]), (g, inDegree, node # queue, result)) \<in> measure kahnMeasure"
    by (simp add: kahnMeasure_def)
qed

definition StableTopologicalSortWithSortedKeys ::
  "'k Graph \<Rightarrow> 'k list \<Rightarrow> 'k sort_error + 'k list" where
  "StableTopologicalSortWithSortedKeys graph sortedKeys =
     (if length sortedKeys \<noteq> length graph
      then Inl (WrongSortedKeys (length sortedKeys) (length graph))
      else
        let inDegree = initInDegree graph sortedKeys (\<lambda>_. 0);
            queue = filter (\<lambda>node. inDegree node = 0) sortedKeys;
            result = kahnLoop graph inDegree queue []
        in if length result \<noteq> length graph then Inl (CyclicDependencies result)
           else Inr result)"


subsection \<open>Correctness of the sort\<close>

definition graphEdges :: "'k Graph \<Rightarrow> ('k \<times> 'k) set" where
  "graphEdges g = {(k, v). v \<in> set (graphAt g k)}"

definition graphClosed :: "'k Graph \<Rightarrow> bool" where
  "graphClosed g = (\<forall>k. set (graphAt g k) \<subseteq> set (map fst g))"

definition listPos :: "'k list \<Rightarrow> 'k \<Rightarrow> nat" where
  "listPos xs a = length (takeWhile (\<lambda>y. y \<noteq> a) xs)"

definition inDeg :: "'k Graph \<Rightarrow> 'k set \<Rightarrow> 'k \<Rightarrow> int" where
  "inDeg g S v = (\<Sum>k \<in> S. int (count_list (graphAt g k) v))"

definition topoSorted :: "'k Graph \<Rightarrow> 'k list \<Rightarrow> bool" where
  "topoSorted g xs = (\<forall>ys x zs. xs = ys @ x # zs \<longrightarrow> (\<forall>k. x \<in> set (graphAt g k) \<longrightarrow> k \<in> set ys))"

definition kahnInv :: "'k Graph \<Rightarrow> ('k \<Rightarrow> int) \<Rightarrow> 'k list \<Rightarrow> 'k list \<Rightarrow> bool" where
  "kahnInv g inDegree queue result =
     (distinct (result @ queue) \<and> set (result @ queue) \<subseteq> set (map fst g) \<and>
      inDegree = inDeg g (set (map fst g) - set result) \<and>
      (\<forall>v \<in> set (map fst g). (v \<in> set (result @ queue)) = (inDegree v = 0)) \<and>
      topoSorted g result)"

lemma countDependencies_apply:
  "countDependencies ds inDegree v = inDegree v + int (count_list ds v)"
  by (induction ds arbitrary: inDegree) auto

lemma inDeg_insert:
  "finite S \<Longrightarrow> k \<notin> S \<Longrightarrow> inDeg g (insert k S) v = int (count_list (graphAt g k) v) + inDeg g S v"
  by (simp add: inDeg_def)

lemma initInDegree_apply:
  "distinct ks \<Longrightarrow> initInDegree g ks inDegree v = inDegree v + inDeg g (set ks) v"
proof (induction ks arbitrary: inDegree)
  case Nil
  then show ?case by (simp add: inDeg_def)
next
  case (Cons key rest)
  then show ?case by (simp add: countDependencies_apply inDeg_insert)
qed

lemma inDeg_nonneg: "0 \<le> inDeg g S v"
  by (simp add: inDeg_def sum_nonneg)

lemma inDeg_zero_iff:
  "finite S \<Longrightarrow> (inDeg g S v = 0) = (\<forall>k \<in> S. v \<notin> set (graphAt g k))"
  by (simp add: inDeg_def sum_nonneg_eq_0_iff count_list_0_iff)

lemma inDeg_remove:
  "finite S \<Longrightarrow> n \<in> S \<Longrightarrow> inDeg g (S - {n}) v = inDeg g S v - int (count_list (graphAt g n) v)"
  by (simp add: inDeg_def sum.remove)

lemma inDeg_ge_count:
  assumes "finite S" "n \<in> S"
  shows "int (count_list (graphAt g n) v) \<le> inDeg g S v"
  using inDeg_remove[OF assms, of g v] inDeg_nonneg[of g "S - {n}" v] by linarith

lemma relaxNeighbors_append:
  "relaxNeighbors ns inDegree queue = (inDegree', queue') \<Longrightarrow> \<exists>added. queue' = queue @ added"
proof (induction ns arbitrary: inDegree queue)
  case Nil
  then show ?case by simp
next
  case (Cons n ns)
  then show ?case by (fastforce simp: Let_def split: if_splits)
qed

lemma relaxNeighbors_spec:
  assumes "\<forall>v. int (count_list ns v) \<le> inDegree v"
    and "relaxNeighbors ns inDegree queue = (inDegree', queue')"
  shows "inDegree' = (\<lambda>v. inDegree v - int (count_list ns v)) \<and>
         (\<exists>added. queue' = queue @ added \<and> distinct added \<and>
            (\<forall>v. (v \<in> set added) = (v \<in> set ns \<and> inDegree v = int (count_list ns v))))"
  using assms
proof (induction ns arbitrary: inDegree queue)
  case Nil
  then show ?case by simp
next
  case (Cons n ns)
  define d where "d = inDegree(n := inDegree n - 1)"
  define q where "q = (if d n = 0 then queue @ [n] else queue)"
  have rec: "relaxNeighbors ns d q = (inDegree', queue')"
    using Cons.prems(2) by (simp add: Let_def d_def q_def)
  have dn: "d n = inDegree n - 1" and dv: "\<And>v. v \<noteq> n \<Longrightarrow> d v = inDegree v"
    by (simp_all add: d_def)
  have pre: "\<forall>v. int (count_list ns v) \<le> d v"
  proof
    fix v
    show "int (count_list ns v) \<le> d v"
      using Cons.prems(1)[rule_format, of v] dn dv[of v] by (cases "v = n") simp_all
  qed
  from Cons.IH[OF pre rec] obtain added where
    d': "inDegree' = (\<lambda>v. d v - int (count_list ns v))" and
    q': "queue' = q @ added" and da: "distinct added" and
    sa: "\<And>v. (v \<in> set added) = (v \<in> set ns \<and> d v = int (count_list ns v))"
    by blast
  have deg: "inDegree' = (\<lambda>v. inDegree v - int (count_list (n # ns) v))"
  proof
    fix v
    show "inDegree' v = inDegree v - int (count_list (n # ns) v)"
      unfolding d' using dn dv[of v] by (cases "v = n") simp_all
  qed
  show ?case
  proof (cases "d n = 0")
    case True
    then have "int (count_list ns n) \<le> 0" using pre[rule_format, of n] by simp
    then have nn: "n \<notin> set ns" by (simp add: count_list_0_iff)
    then have na: "n \<notin> set added" using sa by simp
    have c0: "count_list ns n = 0" using nn by (simp add: count_list_0_iff)
    have 1: "queue' = queue @ (n # added)" using q' True by (simp add: q_def)
    have 2: "distinct (n # added)" using da na by simp
    have 3: "(v \<in> set (n # added)) = (v \<in> set (n # ns) \<and> inDegree v = int (count_list (n # ns) v))" for v
    proof (cases "v = n")
      case True
      then show ?thesis using \<open>d n = 0\<close> dn c0 by simp
    next
      case False
      then show ?thesis using sa[of v] dv[of v] by simp
    qed
    show ?thesis using deg 1 2 3 by blast
  next
    case False
    have 1: "queue' = queue @ added" using q' False by (simp add: q_def)
    have 3: "(v \<in> set added) = (v \<in> set (n # ns) \<and> inDegree v = int (count_list (n # ns) v))" for v
    proof (cases "v = n")
      case True
      show ?thesis
      proof (cases "n \<in> set ns")
        case True
        then show ?thesis using sa[of n] dn \<open>v = n\<close> by auto
      next
        case nn: False
        then have "count_list ns n = 0" by (simp add: count_list_0_iff)
        then show ?thesis using sa[of n] dn nn False \<open>v = n\<close> by auto
      qed
    next
      case False
      then show ?thesis using sa[of v] dv[of v] by simp
    qed
    show ?thesis using deg 1 da 3 by blast
  qed
qed


lemma topoSorted_snoc:
  assumes "topoSorted g xs" "\<forall>k. x \<in> set (graphAt g k) \<longrightarrow> k \<in> set xs"
  shows "topoSorted g (xs @ [x])"
  unfolding topoSorted_def
proof (intro allI impI)
  fix ys y zs k
  assume eq: "xs @ [x] = ys @ y # zs" and e: "y \<in> set (graphAt g k)"
  show "k \<in> set ys"
  proof (cases zs rule: rev_cases)
    case Nil
    then have "ys = xs" "y = x" using eq by auto
    then show ?thesis using assms(2) e by simp
  next
    case (snoc zs' z)
    then have "xs = ys @ y # zs'" using eq by auto
    then show ?thesis using assms(1) e unfolding topoSorted_def by blast
  qed
qed

lemma kahnInv_step:
  assumes closed: "graphClosed g"
    and inv: "kahnInv g inDegree (node # queue) result"
    and r: "relaxNeighbors (graphAt g node) inDegree queue = (inDegree', queue')"
  shows "kahnInv g inDegree' queue' (result @ [node])"
proof -
  let ?V = "set (map fst g)"
  let ?S = "?V - set result"
  have fin: "finite ?S" by simp
  have dist: "distinct (result @ node # queue)" and sub: "set (result @ node # queue) \<subseteq> ?V"
    and deg: "inDegree = inDeg g ?S"
    and zero: "\<And>v. v \<in> ?V \<Longrightarrow> (v \<in> set (result @ node # queue)) = (inDegree v = 0)"
    and topo: "topoSorted g result"
    using inv unfolding kahnInv_def by blast+
  have nS: "node \<in> ?S" using dist sub by auto
  have pre: "\<forall>v. int (count_list (graphAt g node) v) \<le> inDegree v"
    unfolding deg using inDeg_ge_count[OF fin nS] by blast
  from relaxNeighbors_spec[OF pre r] obtain added where
    d': "inDegree' = (\<lambda>v. inDegree v - int (count_list (graphAt g node) v))" and
    q': "queue' = queue @ added" and da: "distinct added" and
    sa: "\<And>v. (v \<in> set added) =
          (v \<in> set (graphAt g node) \<and> inDegree v = int (count_list (graphAt g node) v))"
    by blast
  have S': "?V - set (result @ [node]) = ?S - {node}" by auto
  have deg': "inDegree' = inDeg g (?V - set (result @ [node]))"
    unfolding S' d' deg using inDeg_remove[OF fin nS] by auto
  have nonneg': "0 \<le> inDegree' v" for v unfolding deg' by (rule inDeg_nonneg)
  have le: "inDegree' v \<le> inDegree v" for v unfolding d' by simp
  have addV: "set added \<subseteq> ?V"
    using sa closed unfolding graphClosed_def by blast
  have addpos: "inDegree v \<noteq> 0" if "v \<in> set added" for v
  proof -
    have "v \<in> set (graphAt g node)" and e: "inDegree v = int (count_list (graphAt g node) v)"
      using sa that by auto
    then have "count_list (graphAt g node) v \<noteq> 0" by (simp add: count_list_0_iff)
    then show ?thesis using e by simp
  qed
  have addnew: "set added \<inter> set (result @ node # queue) = {}"
  proof -
    have "v \<notin> set (result @ node # queue)" if "v \<in> set added" for v
      using zero[of v] addpos[OF that] addV that by blast
    then show ?thesis by blast
  qed
  have 1: "distinct ((result @ [node]) @ queue')"
    unfolding q' using dist da addnew by auto
  have 2: "set ((result @ [node]) @ queue') \<subseteq> ?V"
    unfolding q' using sub addV by auto
  have 3: "(v \<in> set ((result @ [node]) @ queue')) = (inDegree' v = 0)" if v: "v \<in> ?V" for v
  proof
    assume "v \<in> set ((result @ [node]) @ queue')"
    then consider "v \<in> set (result @ node # queue)" | "v \<in> set added"
      unfolding q' by auto
    then show "inDegree' v = 0"
    proof cases
      case 1
      then have "inDegree v = 0" using zero[OF v] by simp
      then show ?thesis using le[of v] nonneg'[of v] by linarith
    next
      case 2
      then show ?thesis using sa[of v] unfolding d' by simp
    qed
  next
    assume z: "inDegree' v = 0"
    show "v \<in> set ((result @ [node]) @ queue')"
    proof (cases "inDegree v = 0")
      case True
      then have "v \<in> set (result @ node # queue)" using zero[OF v] by simp
      then show ?thesis unfolding q' by auto
    next
      case False
      have e: "inDegree v = int (count_list (graphAt g node) v)" using z unfolding d' by simp
      then have "count_list (graphAt g node) v \<noteq> 0" using False by simp
      then have "v \<in> set (graphAt g node)" by (simp add: count_list_0_iff)
      then have "v \<in> set added" using sa[of v] e by simp
      then show ?thesis unfolding q' by simp
    qed
  qed
  have preds: "\<forall>k. node \<in> set (graphAt g k) \<longrightarrow> k \<in> set result"
  proof (intro allI impI)
    fix k assume e: "node \<in> set (graphAt g k)"
    have nV: "node \<in> ?V" using sub by auto
    have "inDegree node = 0" using zero[OF nV] by simp
    then have all: "\<forall>k \<in> ?S. node \<notin> set (graphAt g k)"
      unfolding deg using inDeg_zero_iff[OF fin] by blast
    have "k \<in> ?V"
    proof (rule ccontr)
      assume "k \<notin> ?V"
      then have "map_of g k = None" by (simp add: map_of_eq_None_iff)
      then show False using e by (simp add: graphAt_def)
    qed
    then show "k \<in> set result" using all e by blast
  qed
  have 4: "topoSorted g (result @ [node])"
    by (rule topoSorted_snoc[OF topo preds])
  show ?thesis
    unfolding kahnInv_def using 1 2 deg' 3 4 by blast
qed

lemma kahnInv_loop:
  "graphClosed g \<Longrightarrow> kahnInv g inDegree queue result \<Longrightarrow>
     \<exists>inDegree'. kahnInv g inDegree' [] (kahnLoop g inDegree queue result)"
proof (induction g inDegree queue result rule: kahnLoop.induct)
  case (1 g inDegree result)
  then show ?case by auto
next
  case (2 g inDegree node queue result)
  obtain inDegree' queue' where
    r: "relaxNeighbors (graphAt g node) inDegree queue = (inDegree', queue')"
    by (cases "relaxNeighbors (graphAt g node) inDegree queue")
  have "kahnInv g inDegree' queue' (result @ [node])"
    by (rule kahnInv_step[OF "2.prems"(1) "2.prems"(2) r])
  from "2.IH"[OF r[symmetric] "2.prems"(1) this] show ?case using r by simp
qed

lemma kahnLoop_prefix:
  "\<exists>rest. kahnLoop g inDegree queue result = result @ queue @ rest"
proof (induction g inDegree queue result rule: kahnLoop.induct)
  case (1 g inDegree result)
  then show ?case by simp
next
  case (2 g inDegree node queue result)
  obtain inDegree' queue' where
    r: "relaxNeighbors (graphAt g node) inDegree queue = (inDegree', queue')"
    by (cases "relaxNeighbors (graphAt g node) inDegree queue")
  from relaxNeighbors_append[OF r] obtain added where q': "queue' = queue @ added" by blast
  from "2.IH"[OF r[symmetric]] obtain rest where
    "kahnLoop g inDegree' queue' (result @ [node]) = (result @ [node]) @ queue' @ rest" by blast
  then show ?case using r q' by simp
qed

lemma kahnInv_init:
  assumes "distinct sortedKeys" "set sortedKeys = set (map fst g)"
  shows "kahnInv g (initInDegree g sortedKeys (\<lambda>_. 0))
           (filter (\<lambda>node. initInDegree g sortedKeys (\<lambda>_. 0) node = 0) sortedKeys) []"
proof -
  have deg: "initInDegree g sortedKeys (\<lambda>_. 0) = inDeg g (set (map fst g))"
    using initInDegree_apply[OF assms(1), of g "\<lambda>_. 0"] assms(2) by auto
  show ?thesis
    unfolding kahnInv_def deg using assms by (auto simp: topoSorted_def)
qed


lemma finite_graphEdges: "finite (graphEdges g)"
proof -
  have "graphEdges g \<subseteq> set (map fst g) \<times> graphTargets g"
  proof
    fix e assume "e \<in> graphEdges g"
    then obtain k v where e: "e = (k, v)" and v: "v \<in> set (graphAt g k)"
      by (auto simp: graphEdges_def)
    have "k \<in> set (map fst g)"
    proof (rule ccontr)
      assume "k \<notin> set (map fst g)"
      then have "map_of g k = None" by (simp add: map_of_eq_None_iff)
      then show False using v by (simp add: graphAt_def)
    qed
    then show "e \<in> set (map fst g) \<times> graphTargets g"
      using e v graphAt_targets[of g k] by auto
  qed
  then show ?thesis using finite_graphTargets[of g] by (meson finite_SigmaI finite_set finite_subset)
qed

lemma takeWhile_neq_less: "k \<in> set ys \<Longrightarrow> length (takeWhile (\<lambda>y. y \<noteq> k) ys) < length ys"
  by (induction ys) auto

lemma listPos_before:
  assumes "xs = ys @ x # zs" "x \<notin> set ys" "k \<in> set ys"
  shows "listPos xs k < listPos xs x"
proof -
  have "listPos xs x = length ys"
    unfolding listPos_def assms(1) using assms(2) by (subst takeWhile_append2) auto
  moreover have "listPos xs k < length ys"
  proof -
    have "takeWhile (\<lambda>y. y \<noteq> k) xs = takeWhile (\<lambda>y. y \<noteq> k) ys"
      unfolding assms(1) using assms(3) by (simp add: takeWhile_append1)
    moreover have "length (takeWhile (\<lambda>y. y \<noteq> k) ys) < length ys"
      using assms(3) by (rule takeWhile_neq_less)
    ultimately show ?thesis by (simp add: listPos_def)
  qed
  ultimately show ?thesis by simp
qed

lemma topoSorted_edge_pos:
  assumes "topoSorted g order" "(k, v) \<in> graphEdges g" "v \<in> set order"
  shows "listPos order k < listPos order v"
proof -
  from split_list_first[OF assms(3)] obtain ys zs where
    sp: "order = ys @ v # zs" "v \<notin> set ys" by blast
  have "v \<in> set (graphAt g k)" using assms(2) by (simp add: graphEdges_def)
  then have "k \<in> set ys" using assms(1) sp(1) unfolding topoSorted_def by blast
  then show ?thesis by (rule listPos_before[OF sp])
qed

lemma topoSorted_path_pos:
  assumes "topoSorted g order" "\<forall>k. set (graphAt g k) \<subseteq> set order" "(x, y) \<in> (graphEdges g)\<^sup>+"
  shows "listPos order x < listPos order y"
  using assms(3)
proof (induction rule: trancl_induct)
  case (base y)
  then have "y \<in> set order" using assms(2) by (auto simp: graphEdges_def)
  then show ?case using topoSorted_edge_pos[OF assms(1) base] by blast
next
  case (step y z)
  then have "z \<in> set order" using assms(2) by (auto simp: graphEdges_def)
  then have "listPos order y < listPos order z"
    using topoSorted_edge_pos[OF assms(1) step(2)] by blast
  then show ?case using step.IH by simp
qed

lemma topoSorted_acyclic:
  assumes "topoSorted g order" "\<forall>k. set (graphAt g k) \<subseteq> set order"
  shows "acyclic (graphEdges g)"
proof (rule acyclicI)
  show "\<forall>x. (x, x) \<notin> (graphEdges g)\<^sup>+"
  proof
    fix x
    show "(x, x) \<notin> (graphEdges g)\<^sup>+"
      using topoSorted_path_pos[OF assms, of x x] by auto
  qed
qed

text \<open>What the loop returns, for a closed graph and a stability list that lists each key once.\<close>

lemma kahnLoop_result:
  assumes closed: "graphClosed g"
    and dk: "distinct sortedKeys" and sk: "set sortedKeys = set (map fst g)"
    and res: "result = kahnLoop g (initInDegree g sortedKeys (\<lambda>_. 0))
                (filter (\<lambda>node. initInDegree g sortedKeys (\<lambda>_. 0) node = 0) sortedKeys) []"
  shows "distinct result" and "set result \<subseteq> set (map fst g)" and "topoSorted g result"
    and "\<forall>v \<in> set (map fst g) - set result. \<exists>k \<in> set (map fst g) - set result. (k, v) \<in> graphEdges g"
proof -
  from kahnInv_loop[OF closed kahnInv_init[OF dk sk]] obtain inDegree' where
    inv: "kahnInv g inDegree' [] result" unfolding res by blast
  show "distinct result" "set result \<subseteq> set (map fst g)" "topoSorted g result"
    using inv unfolding kahnInv_def by auto
  have deg: "inDegree' = inDeg g (set (map fst g) - set result)"
    and zero: "\<And>v. v \<in> set (map fst g) \<Longrightarrow> (v \<in> set result) = (inDegree' v = 0)"
    using inv unfolding kahnInv_def by auto
  show "\<forall>v \<in> set (map fst g) - set result. \<exists>k \<in> set (map fst g) - set result. (k, v) \<in> graphEdges g"
  proof
    fix v assume v: "v \<in> set (map fst g) - set result"
    then have "inDegree' v \<noteq> 0" using zero[of v] by simp
    then have "\<not> (\<forall>k \<in> set (map fst g) - set result. v \<notin> set (graphAt g k))"
      unfolding deg using inDeg_zero_iff[of "set (map fst g) - set result" g v] by simp
    then show "\<exists>k \<in> set (map fst g) - set result. (k, v) \<in> graphEdges g"
      by (simp add: graphEdges_def)
  qed
qed

lemma kahnLoop_complete:
  assumes closed: "graphClosed g"
    and dk: "distinct sortedKeys" and sk: "set sortedKeys = set (map fst g)"
    and res: "result = kahnLoop g (initInDegree g sortedKeys (\<lambda>_. 0))
                (filter (\<lambda>node. initInDegree g sortedKeys (\<lambda>_. 0) node = 0) sortedKeys) []"
    and acyc: "acyclic (graphEdges g)"
  shows "set result = set (map fst g)"
proof (rule ccontr)
  assume ne: "set result \<noteq> set (map fst g)"
  note facts = kahnLoop_result[OF closed dk sk res]
  let ?Q = "set (map fst g) - set result"
  from ne facts(2) obtain x where x: "x \<in> ?Q" by blast
  have "wf (graphEdges g)" by (rule finite_acyclic_wf[OF finite_graphEdges acyc])
  from wfE_min[OF this x] obtain z where z: "z \<in> ?Q" "\<And>y. (y, z) \<in> graphEdges g \<Longrightarrow> y \<notin> ?Q"
    by blast
  from facts(4) z(1) obtain k where "k \<in> ?Q" "(k, z) \<in> graphEdges g" by blast
  then show False using z(2) by blast
qed

lemma distinct_same_set_length:
  "distinct xs \<Longrightarrow> distinct ys \<Longrightarrow> set xs = set ys \<Longrightarrow> length xs = length ys"
  by (metis distinct_card)

lemma distinct_subset_length:
  assumes "distinct xs" "distinct ys" "set xs \<subseteq> set ys" "set xs \<noteq> set ys"
  shows "length xs < length ys"
proof -
  have "set xs \<subset> set ys" using assms(3,4) by blast
  then have "card (set xs) < card (set ys)" by (simp add: psubset_card_mono)
  then show ?thesis using assms(1,2) by (simp add: distinct_card)
qed

lemma sort_acyclic:
  assumes dg: "distinct (map fst g)" and closed: "graphClosed g"
    and dk: "distinct sortedKeys" and sk: "set sortedKeys = set (map fst g)"
    and acyc: "acyclic (graphEdges g)"
  shows "\<exists>order. StableTopologicalSortWithSortedKeys g sortedKeys = Inr order \<and>
           distinct order \<and> set order = set (map fst g) \<and> topoSorted g order \<and>
           (\<exists>rest. order = filter (\<lambda>v. \<forall>k \<in> set (map fst g). v \<notin> set (graphAt g k)) sortedKeys @ rest)"
proof -
  define inDegree where "inDegree = initInDegree g sortedKeys (\<lambda>_. 0)"
  define result where "result = kahnLoop g inDegree (filter (\<lambda>node. inDegree node = 0) sortedKeys) []"
  have res: "result = kahnLoop g (initInDegree g sortedKeys (\<lambda>_. 0))
                (filter (\<lambda>node. initInDegree g sortedKeys (\<lambda>_. 0) node = 0) sortedKeys) []"
    unfolding result_def inDegree_def by simp
  note facts = kahnLoop_result[OF closed dk sk res]
  have full: "set result = set (map fst g)" by (rule kahnLoop_complete[OF closed dk sk res acyc])
  have len: "length sortedKeys = length g"
    using distinct_same_set_length[OF dk dg sk] by simp
  have lenr: "length result = length g"
    using distinct_same_set_length[OF facts(1) dg full] by simp
  have run: "StableTopologicalSortWithSortedKeys g sortedKeys = Inr result"
    unfolding StableTopologicalSortWithSortedKeys_def Let_def
    using len lenr unfolding result_def inDegree_def by simp
  have deg: "inDegree = inDeg g (set (map fst g))"
    unfolding inDegree_def using initInDegree_apply[OF dk, of g "\<lambda>_. 0"] sk by auto
  have roots: "filter (\<lambda>node. inDegree node = 0) sortedKeys =
               filter (\<lambda>v. \<forall>k \<in> set (map fst g). v \<notin> set (graphAt g k)) sortedKeys"
    unfolding deg using inDeg_zero_iff[of "set (map fst g)" g] by simp
  from kahnLoop_prefix[of g inDegree "filter (\<lambda>node. inDegree node = 0) sortedKeys" "[]"]
  obtain rest where "result = filter (\<lambda>node. inDegree node = 0) sortedKeys @ rest"
    unfolding result_def by auto
  then have "\<exists>rest. result = filter (\<lambda>v. \<forall>k \<in> set (map fst g). v \<notin> set (graphAt g k)) sortedKeys @ rest"
    unfolding roots by blast
  then show ?thesis using run facts(1) full facts(3) by blast
qed

lemma sort_cyclic:
  assumes dg: "distinct (map fst g)" and closed: "graphClosed g"
    and dk: "distinct sortedKeys" and sk: "set sortedKeys = set (map fst g)"
    and cyc: "\<not> acyclic (graphEdges g)"
  shows "\<exists>partial. StableTopologicalSortWithSortedKeys g sortedKeys = Inl (CyclicDependencies partial)"
proof -
  define inDegree where "inDegree = initInDegree g sortedKeys (\<lambda>_. 0)"
  define result where "result = kahnLoop g inDegree (filter (\<lambda>node. inDegree node = 0) sortedKeys) []"
  have res: "result = kahnLoop g (initInDegree g sortedKeys (\<lambda>_. 0))
                (filter (\<lambda>node. initInDegree g sortedKeys (\<lambda>_. 0) node = 0) sortedKeys) []"
    unfolding result_def inDegree_def by simp
  note facts = kahnLoop_result[OF closed dk sk res]
  have ne: "set result \<noteq> set (map fst g)"
  proof
    assume full: "set result = set (map fst g)"
    have "\<forall>k. set (graphAt g k) \<subseteq> set result"
      using closed unfolding graphClosed_def full by simp
    from topoSorted_acyclic[OF facts(3) this] cyc show False by simp
  qed
  have len: "length sortedKeys = length g"
    using distinct_same_set_length[OF dk dg sk] by simp
  have "length result < length (map fst g)"
    by (rule distinct_subset_length[OF facts(1) dg facts(2) ne])
  then have lenr: "length result \<noteq> length g" by simp
  have "StableTopologicalSortWithSortedKeys g sortedKeys = Inl (CyclicDependencies result)"
    unfolding StableTopologicalSortWithSortedKeys_def Let_def
    using len lenr unfolding result_def inDegree_def by simp
  then show ?thesis by blast
qed


text \<open>
  C5 (as amended). For a graph given as a map with every edge target among its keys, acyclic,
  and a stability list holding each key once, the sort succeeds; the order it returns holds
  each vertex once, every vertex comes BEFORE all vertices reachable from it through the
  depends-on edges (dependents first), and the vertices with no incoming edge come first, in
  stability-list order.
\<close>

theorem C5_sort_puts_dependents_first:
  assumes "distinct (map fst g)" and "graphClosed g" and "acyclic (graphEdges g)"
    and "distinct sortedKeys" and "set sortedKeys = set (map fst g)"
  shows "\<exists>order. StableTopologicalSortWithSortedKeys g sortedKeys = Inr order \<and>
           distinct order \<and> set order = set (map fst g) \<and>
           (\<forall>x y. (x, y) \<in> (graphEdges g)\<^sup>+ \<longrightarrow> listPos order x < listPos order y) \<and>
           (\<exists>rest. order =
              filter (\<lambda>v. \<forall>k \<in> set (map fst g). v \<notin> set (graphAt g k)) sortedKeys @ rest)"
proof -
  from sort_acyclic[OF assms(1,2,4,5,3)] obtain order where
    run: "StableTopologicalSortWithSortedKeys g sortedKeys = Inr order" and
    d: "distinct order" and full: "set order = set (map fst g)" and topo: "topoSorted g order" and
    pre: "\<exists>rest. order =
              filter (\<lambda>v. \<forall>k \<in> set (map fst g). v \<notin> set (graphAt g k)) sortedKeys @ rest"
    by blast
  have cl: "\<forall>k. set (graphAt g k) \<subseteq> set order"
    using assms(2) unfolding graphClosed_def full by simp
  have "\<forall>x y. (x, y) \<in> (graphEdges g)\<^sup>+ \<longrightarrow> listPos order x < listPos order y"
    using topoSorted_path_pos[OF topo cl] by blast
  then show ?thesis using run d full pre by blast
qed

definition diamondGraph :: "nat Graph" where
  "diamondGraph = [(0, [2]), (1, [2]), (2, [])]"

lemma diamondGraph_acyclic: "acyclic (graphEdges diamondGraph)"
proof (rule acyclicI_order[where f = "\<lambda>v. if v = (2::nat) then (0::nat) else 1"])
  fix a b assume "(a, b) \<in> graphEdges diamondGraph"
  then show "(if b = 2 then (0::nat) else 1) < (if a = 2 then 0 else 1)"
    by (auto simp: graphEdges_def graphAt_def diamondGraph_def split: if_splits)
qed

theorem C5_sort_witness:
  "distinct (map fst diamondGraph) \<and> graphClosed diamondGraph \<and> acyclic (graphEdges diamondGraph) \<and>
   distinct [0, 1, 2 :: nat] \<and> set [0, 1, 2] = set (map fst diamondGraph) \<and>
   (\<exists>order. StableTopologicalSortWithSortedKeys diamondGraph [0, 1, 2] = Inr order \<and>
           distinct order \<and> set order = set (map fst diamondGraph) \<and>
           (\<forall>x y. (x, y) \<in> (graphEdges diamondGraph)\<^sup>+ \<longrightarrow> listPos order x < listPos order y) \<and>
           (\<exists>rest. order =
              filter (\<lambda>v. \<forall>k \<in> set (map fst diamondGraph). v \<notin> set (graphAt diamondGraph k)) [0, 1, 2] @ rest))"
proof -
  have 1: "distinct (map fst diamondGraph)" by (simp add: diamondGraph_def)
  have 2: "graphClosed diamondGraph" by (auto simp: graphClosed_def graphAt_def diamondGraph_def)
  have 4: "distinct [0, 1, 2 :: nat]" by simp
  have 5: "set [0, 1, 2] = set (map fst diamondGraph)" by (auto simp: diamondGraph_def)
  from C5_sort_puts_dependents_first[OF 1 2 diamondGraph_acyclic 4 5] 1 2 diamondGraph_acyclic 4 5
  show ?thesis by blast
qed

text \<open>
  The claim as stated has the order the other way round: in the graph \<open>0 \<rightarrow> [1]\<close>
  vertex 1 is reachable from vertex 0, and the sort returns \<open>[0, 1]\<close>, where 0 does not
  appear after 1.
\<close>

theorem C5_order_counterexample:
  "distinct (map fst [(0::nat, [1]), (1, [])]) \<and> graphClosed [(0::nat, [1]), (1, [])] \<and>
   (0, 1) \<in> (graphEdges [(0::nat, [1]), (1, [])])\<^sup>+ \<and>
   StableTopologicalSortWithSortedKeys [(0::nat, [1]), (1, [])] [0, 1] = Inr [0, 1] \<and>
   \<not> listPos [0::nat, 1] 1 < listPos [0, 1] 0"
proof -
  have "(0::nat, 1::nat) \<in> graphEdges [(0, [1]), (1, [])]"
    by (simp add: graphEdges_def graphAt_def)
  then have "(0::nat, 1::nat) \<in> (graphEdges [(0, [1]), (1, [])])\<^sup>+" by (rule r_into_trancl)
  moreover have "graphClosed [(0::nat, [1]), (1, [])]"
    by (auto simp: graphClosed_def graphAt_def)
  moreover have "StableTopologicalSortWithSortedKeys [(0::nat, [1]), (1, [])] [0, 1] = Inr [0, 1]"
    by (simp add: StableTopologicalSortWithSortedKeys_def graphAt_def Let_def)
  ultimately show ?thesis by (simp add: listPos_def)
qed



section \<open>Shared object store (objstore: GenericStore)\<close>

text \<open>
  An object reference is a non-nil Go pointer: the pointee's type and its address. The
  argument of \<open>Register\<close> is what reflection sees: not a pointer to a pointer, a nil
  pointer to a pointer, or a slot of static type \<open>*T\<close> holding nil or an address. A slot
  type is a concrete pointer type, so a canonical object is assignable to it exactly when
  it has the slot's type. A panic is a value of \<open>abort\<close>; \<open>Register\<close> returns the
  store and what the caller's slot holds afterwards.

  The Go maps \<open>objects\<close> and \<open>dependencies\<close> are kept as lists without duplicate
  keys. Go iterates a map in an order of its own choosing, which may differ from one
  iteration to the next: \<open>mapOrder n keys\<close> is the order chosen for the \<open>n\<close>-th iteration,
  and the store counts its map iterations in \<open>mapIterations\<close>.

  The callbacks of the store are the fields of \<open>StoreFuncs\<close>. An object's
  \<open>RegisterDependencies\<close> is given by \<open>requirements\<close>: the slots it passes to
  \<open>Register\<close>, in order. \<open>collectDependencies\<close> recurses as deep as the dependency
  chains are long, and objects may keep creating new ones: its depth is bounded by fuel.
  \<open>sort.Slice\<close> is an insertion sort by \<open>idLess\<close>. \<open>Init\<close> also returns the IDs whose
  \<open>Init\<close> hook it invoked, in order.
\<close>

record objref =
  objType :: string
  objAddr :: nat

datatype regarg =
    NotPtrToPtr
  | NilPtrToPtr
  | PtrToPtr string "nat option"

datatype abort =
    PanicNotPtrToPtr
  | PanicNilPtrToPtr
  | PanicNilObject
  | PanicNotSharedObject
  | PanicDifferentType
  | PanicNilSharedObject
  | PanicAssertFailed
  | OutOfFuel

datatype 'id init_error =
    AlreadyInitialized
  | SortFailed "'id sort_error"
  | ObjectInitFailure string

record ('id, 'p) GenericStore =
  objects :: "('id \<times> objref) list"
  objectsRegistrationOrder :: "'id list"
  topLevelDependencies :: "'id list"
  recentlyRegisteredSharedObjects :: "'id list"
  dependencies :: "'id list"
  initializationOrder :: "'id list"
  initParams :: "'p option"
  mapIterations :: nat

record ('id, 'p) StoreFuncs =
  getID :: "objref \<Rightarrow> 'id"
  idLess :: "('id \<Rightarrow> 'id \<Rightarrow> bool) option"
  requirements :: "objref \<Rightarrow> regarg list"
  initObj :: "(objref \<Rightarrow> 'p \<Rightarrow> string option) option"
  implementsShared :: "string \<Rightarrow> bool"
  mapOrder :: "nat \<Rightarrow> 'id list \<Rightarrow> 'id list"

definition NewGenericStore :: "('id, 'p) GenericStore" where
  "NewGenericStore =
     \<lparr>objects = [], objectsRegistrationOrder = [], topLevelDependencies = [],
      recentlyRegisteredSharedObjects = [], dependencies = [], initializationOrder = [],
      initParams = None, mapIterations = 0\<rparr>"

definition mapOrderOK :: "('id, 'p) StoreFuncs \<Rightarrow> bool" where
  "mapOrderOK f = (\<forall>n xs. set (mapOrder f n xs) = set xs \<and> length (mapOrder f n xs) = length xs)"

definition mapKeys ::
  "('id, 'p) StoreFuncs \<Rightarrow> ('id, 'p) GenericStore \<Rightarrow> 'id list \<Rightarrow> 'id list \<times> ('id, 'p) GenericStore" where
  "mapKeys f s keys = (mapOrder f (mapIterations s) keys, s\<lparr>mapIterations := mapIterations s + 1\<rparr>)"

definition Register ::
  "('id, 'p) StoreFuncs \<Rightarrow> ('id, 'p) GenericStore \<Rightarrow> regarg \<Rightarrow>
     abort + (('id, 'p) GenericStore \<times> objref)" where
  "Register f s obj =
     (case obj of
        NotPtrToPtr \<Rightarrow> Inl PanicNotPtrToPtr
      | NilPtrToPtr \<Rightarrow> Inl PanicNilPtrToPtr
      | PtrToPtr T None \<Rightarrow> Inl PanicNilObject
      | PtrToPtr T (Some a) \<Rightarrow>
          if \<not> implementsShared f T then Inl PanicNotSharedObject
          else
            let objAsSharedType = \<lparr>objType = T, objAddr = a\<rparr>;
                objID = getID f objAsSharedType;
                s1 = s\<lparr>dependencies := List.insert objID (dependencies s),
                       recentlyRegisteredSharedObjects := recentlyRegisteredSharedObjects s @ [objID]\<rparr>
            in case map_of (objects s1) objID of
                 Some existing \<Rightarrow>
                   if objType existing \<noteq> T then Inl PanicDifferentType
                   else Inr (s1, existing)
               | None \<Rightarrow>
                   Inr (s1\<lparr>objects := AList.update objID objAsSharedType (objects s1),
                            objectsRegistrationOrder := objectsRegistrationOrder s1 @ [objID]\<rparr>,
                        objAsSharedType))"

fun registerAll ::
  "('id, 'p) StoreFuncs \<Rightarrow> ('id, 'p) GenericStore \<Rightarrow> regarg list \<Rightarrow> abort + ('id, 'p) GenericStore" where
  "registerAll f s [] = Inr s"
| "registerAll f s (obj # rest) =
     (case Register f s obj of
        Inl e \<Rightarrow> Inl e
      | Inr (s', slot) \<Rightarrow> registerAll f s' rest)"

definition gatherRequirements ::
  "('id, 'p) StoreFuncs \<Rightarrow> objref \<Rightarrow> ('id, 'p) GenericStore \<Rightarrow> abort + ('id, 'p) GenericStore" where
  "gatherRequirements f obj s = registerAll f s (requirements f obj)"

fun collectLoop ::
  "(('id, 'p) GenericStore \<Rightarrow> 'id Graph \<Rightarrow> abort + (('id, 'p) GenericStore \<times> 'id Graph)) \<Rightarrow>
   ('id, 'p) StoreFuncs \<Rightarrow> 'id list \<Rightarrow> ('id, 'p) GenericStore \<Rightarrow> 'id Graph \<Rightarrow>
     abort + (('id, 'p) GenericStore \<times> 'id Graph)" where
  "collectLoop recurse f [] s dependenciesGraph = Inr (s, dependenciesGraph)"
| "collectLoop recurse f (objID # rest) s dependenciesGraph =
     (if objID \<in> set (map fst dependenciesGraph) then collectLoop recurse f rest s dependenciesGraph
      else
        case map_of (objects s) objID of
          None \<Rightarrow> Inl PanicNilSharedObject
        | Some obj \<Rightarrow>
            (case gatherRequirements f obj s of
               Inl e \<Rightarrow> Inl e
             | Inr s1 \<Rightarrow>
                 (case mapKeys f s1 (dependencies s1) of
                    (keys, s2) \<Rightarrow>
                      (case recurse s2 (AList.update objID keys dependenciesGraph) of
                         Inl e \<Rightarrow> Inl e
                       | Inr (s3, graph3) \<Rightarrow> collectLoop recurse f rest s3 graph3))))"

primrec collectDependencies ::
  "('id, 'p) StoreFuncs \<Rightarrow> nat \<Rightarrow> ('id, 'p) GenericStore \<Rightarrow> 'id Graph \<Rightarrow>
     abort + (('id, 'p) GenericStore \<times> 'id Graph)" where
  "collectDependencies f 0 s dependenciesGraph = Inl OutOfFuel"
| "collectDependencies f (Suc fuel) s dependenciesGraph =
     (case mapKeys f s (dependencies s) of
        (deps, s1) \<Rightarrow>
          collectLoop (collectDependencies f fuel) f deps (s1\<lparr>dependencies := []\<rparr>) dependenciesGraph)"

fun insertSorted :: "('id \<Rightarrow> 'id \<Rightarrow> bool) \<Rightarrow> 'id \<Rightarrow> 'id list \<Rightarrow> 'id list" where
  "insertSorted lt x [] = [x]"
| "insertSorted lt x (y # ys) = (if lt x y then x # y # ys else y # insertSorted lt x ys)"

definition sortSlice :: "('id \<Rightarrow> 'id \<Rightarrow> bool) \<Rightarrow> 'id list \<Rightarrow> 'id list" where
  "sortSlice lt xs = foldr (insertSorted lt) xs []"

fun initObjects ::
  "(objref \<Rightarrow> 'p \<Rightarrow> string option) \<Rightarrow> 'p \<Rightarrow> ('id \<times> objref) list \<Rightarrow> 'id list \<Rightarrow> 'id list \<Rightarrow>
     abort + (string option \<times> 'id list)" where
  "initObjects hook params objs [] called = Inr (None, called)"
| "initObjects hook params objs (objID # rest) called =
     (case map_of objs objID of
        None \<Rightarrow> Inl PanicNilSharedObject
      | Some object \<Rightarrow>
          (case hook object params of
             Some err \<Rightarrow> Inr (Some err, called @ [objID])
           | None \<Rightarrow> initObjects hook params objs rest (called @ [objID])))"

definition Init ::
  "('id, 'p) StoreFuncs \<Rightarrow> nat \<Rightarrow> 'p \<Rightarrow> ('id, 'p) GenericStore \<Rightarrow>
     abort + (('id, 'p) GenericStore \<times> 'id init_error option \<times> 'id list)" where
  "Init f fuel params s =
     (if length (topLevelDependencies s) \<noteq> 0 then Inr (s, Some AlreadyInitialized, [])
      else
        case mapKeys f s (dependencies s) of
          (topLevel, s0) \<Rightarrow>
            (case collectDependencies f fuel (s0\<lparr>topLevelDependencies := topLevel\<rparr>) [] of
               Inl e \<Rightarrow> Inl e
             | Inr (s1, dependenciesGraph) \<Rightarrow>
                 if length dependenciesGraph \<noteq> length (objects s1) then Inl PanicAssertFailed
                 else
                   (case (case idLess f of
                            None \<Rightarrow> (objectsRegistrationOrder s1, s1)
                          | Some lt \<Rightarrow>
                              (case mapKeys f s1 (map fst (objects s1)) of
                                 (keys, s2) \<Rightarrow> (sortSlice lt keys, s2))) of
                      (stability, s2) \<Rightarrow>
                        (case StableTopologicalSortWithSortedKeys dependenciesGraph stability of
                           Inl err \<Rightarrow> Inr (s2, Some (SortFailed err), [])
                         | Inr order \<Rightarrow>
                             (case initObj f of
                                None \<Rightarrow>
                                  Inr (s2\<lparr>initializationOrder := rev order, initParams := Some params\<rparr>,
                                       None, [])
                              | Some hook \<Rightarrow>
                                  (case initObjects hook params (objects s2) (rev order) [] of
                                     Inl e \<Rightarrow> Inl e
                                   | Inr (Some err, called) \<Rightarrow>
                                       Inr (s2, Some (ObjectInitFailure err), called)
                                   | Inr (None, called) \<Rightarrow>
                                       Inr (s2\<lparr>initializationOrder := rev order,
                                               initParams := Some params\<rparr>, None, called)))))))"

text \<open>Scenario S2\<close>

definition basicFuncs :: "(objref \<Rightarrow> string) \<Rightarrow> (nat \<Rightarrow> string list \<Rightarrow> string list) \<Rightarrow> (string, unit) StoreFuncs" where
  "basicFuncs hash order =
     \<lparr>getID = (\<lambda>obj. objType obj @ ''-'' @ hash obj),
      idLess = Some (\<lambda>id1 id2. id1 < id2),
      requirements = (\<lambda>obj.
         if objType obj = ''*basic_example.Concatenator'' \<or> objType obj = ''*basic_example.Multiplier''
         then [PtrToPtr ''*basic_example.Counter'' (Some (objAddr obj + 1))] else []),
      initObj = Some (\<lambda>obj p. None),
      implementsShared = (\<lambda>T. True),
      mapOrder = order\<rparr>"


section \<open>Registration\<close>

lemma Register_existing:
  assumes "implementsShared f T"
    and "map_of (objects s) (getID f \<lparr>objType = T, objAddr = a\<rparr>) = Some existing"
    and "objType existing = T"
  shows "Register f s (PtrToPtr T (Some a)) =
     Inr (s\<lparr>dependencies := List.insert (getID f \<lparr>objType = T, objAddr = a\<rparr>) (dependencies s),
            recentlyRegisteredSharedObjects :=
              recentlyRegisteredSharedObjects s @ [getID f \<lparr>objType = T, objAddr = a\<rparr>]\<rparr>,
          existing)"
  using assms by (simp add: Register_def Let_def)

lemma Register_new:
  assumes "implementsShared f T"
    and "map_of (objects s) (getID f \<lparr>objType = T, objAddr = a\<rparr>) = None"
  shows "Register f s (PtrToPtr T (Some a)) =
     Inr (s\<lparr>dependencies := List.insert (getID f \<lparr>objType = T, objAddr = a\<rparr>) (dependencies s),
            recentlyRegisteredSharedObjects :=
              recentlyRegisteredSharedObjects s @ [getID f \<lparr>objType = T, objAddr = a\<rparr>],
            objects := AList.update (getID f \<lparr>objType = T, objAddr = a\<rparr>) \<lparr>objType = T, objAddr = a\<rparr> (objects s),
            objectsRegistrationOrder :=
              objectsRegistrationOrder s @ [getID f \<lparr>objType = T, objAddr = a\<rparr>]\<rparr>,
          \<lparr>objType = T, objAddr = a\<rparr>)"
  using assms by (simp add: Register_def Let_def)

text \<open>Every successful call is one of the two cases above.\<close>

lemma Register_InrE:
  assumes "Register f s obj = Inr (s', slot)"
  obtains T a where "obj = PtrToPtr T (Some a)" "implementsShared f T"
    "map_of (objects s) (getID f \<lparr>objType = T, objAddr = a\<rparr>) = Some slot" "objType slot = T"
    "s' = s\<lparr>dependencies := List.insert (getID f \<lparr>objType = T, objAddr = a\<rparr>) (dependencies s),
            recentlyRegisteredSharedObjects :=
              recentlyRegisteredSharedObjects s @ [getID f \<lparr>objType = T, objAddr = a\<rparr>]\<rparr>"
  | T a where "obj = PtrToPtr T (Some a)" "implementsShared f T"
    "map_of (objects s) (getID f \<lparr>objType = T, objAddr = a\<rparr>) = None"
    "slot = \<lparr>objType = T, objAddr = a\<rparr>"
    "s' = s\<lparr>dependencies := List.insert (getID f \<lparr>objType = T, objAddr = a\<rparr>) (dependencies s),
            recentlyRegisteredSharedObjects :=
              recentlyRegisteredSharedObjects s @ [getID f \<lparr>objType = T, objAddr = a\<rparr>],
            objects := AList.update (getID f \<lparr>objType = T, objAddr = a\<rparr>) \<lparr>objType = T, objAddr = a\<rparr> (objects s),
            objectsRegistrationOrder :=
              objectsRegistrationOrder s @ [getID f \<lparr>objType = T, objAddr = a\<rparr>]\<rparr>"
proof (cases obj)
  case NotPtrToPtr
  then show ?thesis using assms by (simp add: Register_def)
next
  case NilPtrToPtr
  then show ?thesis using assms by (simp add: Register_def)
next
  case (PtrToPtr T p)
  show ?thesis
  proof (cases p)
    case None
    then show ?thesis using assms PtrToPtr by (simp add: Register_def)
  next
    case (Some a)
    have impl: "implementsShared f T"
      using assms PtrToPtr Some by (auto simp: Register_def split: if_splits)
    show ?thesis
    proof (cases "map_of (objects s) (getID f \<lparr>objType = T, objAddr = a\<rparr>)")
      case None
      have "Register f s obj = Inr (s\<lparr>dependencies := List.insert (getID f \<lparr>objType = T, objAddr = a\<rparr>) (dependencies s),
            recentlyRegisteredSharedObjects :=
              recentlyRegisteredSharedObjects s @ [getID f \<lparr>objType = T, objAddr = a\<rparr>],
            objects := AList.update (getID f \<lparr>objType = T, objAddr = a\<rparr>) \<lparr>objType = T, objAddr = a\<rparr> (objects s),
            objectsRegistrationOrder :=
              objectsRegistrationOrder s @ [getID f \<lparr>objType = T, objAddr = a\<rparr>]\<rparr>,
          \<lparr>objType = T, objAddr = a\<rparr>)"
        using Register_new[OF impl None] PtrToPtr \<open>p = Some a\<close> by simp
      then have sl: "slot = \<lparr>objType = T, objAddr = a\<rparr>" and
        st: "s' = s\<lparr>dependencies := List.insert (getID f \<lparr>objType = T, objAddr = a\<rparr>) (dependencies s),
            recentlyRegisteredSharedObjects :=
              recentlyRegisteredSharedObjects s @ [getID f \<lparr>objType = T, objAddr = a\<rparr>],
            objects := AList.update (getID f \<lparr>objType = T, objAddr = a\<rparr>) \<lparr>objType = T, objAddr = a\<rparr> (objects s),
            objectsRegistrationOrder :=
              objectsRegistrationOrder s @ [getID f \<lparr>objType = T, objAddr = a\<rparr>]\<rparr>"
        using assms by simp_all
      have ob: "obj = PtrToPtr T (Some a)" using PtrToPtr \<open>p = Some a\<close> by simp
      show ?thesis by (rule that(2)[OF ob impl None sl st])
    next
      case (Some existing)
      have ty: "objType existing = T"
        using assms PtrToPtr \<open>p = Some a\<close> Some impl
        by (auto simp: Register_def Let_def split: if_splits)
      have "Register f s obj = Inr (s\<lparr>dependencies := List.insert (getID f \<lparr>objType = T, objAddr = a\<rparr>) (dependencies s),
            recentlyRegisteredSharedObjects :=
              recentlyRegisteredSharedObjects s @ [getID f \<lparr>objType = T, objAddr = a\<rparr>]\<rparr>,
          existing)"
        using Register_existing[OF impl Some ty] PtrToPtr \<open>p = Some a\<close> by simp
      then have sl: "slot = existing" and
        st: "s' = s\<lparr>dependencies := List.insert (getID f \<lparr>objType = T, objAddr = a\<rparr>) (dependencies s),
            recentlyRegisteredSharedObjects :=
              recentlyRegisteredSharedObjects s @ [getID f \<lparr>objType = T, objAddr = a\<rparr>]\<rparr>"
        using assms by simp_all
      have ob: "obj = PtrToPtr T (Some a)" using PtrToPtr \<open>p = Some a\<close> by simp
      have m: "map_of (objects s) (getID f \<lparr>objType = T, objAddr = a\<rparr>) = Some slot"
        using Some sl by simp
      have ty': "objType slot = T" using ty sl by simp
      show ?thesis by (rule that(1)[OF ob impl m ty' st])
    qed
  qed
qed

text \<open>The canonical object of an ID, once set, never changes.\<close>

lemma Register_keeps_canonical:
  assumes "Register f s obj = Inr (s', slot)" "map_of (objects s) i = Some c"
  shows "map_of (objects s') i = Some c"
  using assms(1)
proof (cases rule: Register_InrE)
  case (1 T a)
  then show ?thesis using assms(2) by simp
next
  case (2 T a)
  then have "i \<noteq> getID f \<lparr>objType = T, objAddr = a\<rparr>" using assms(2) by auto
  then show ?thesis using 2 assms(2) by (simp add: update_conv')
qed

lemma registerAll_keeps_canonical:
  "registerAll f s objs = Inr s' \<Longrightarrow> map_of (objects s) i = Some c \<Longrightarrow> map_of (objects s') i = Some c"
proof (induction objs arbitrary: s)
  case Nil
  then show ?case by simp
next
  case (Cons obj rest)
  then obtain s1 slot where r: "Register f s obj = Inr (s1, slot)" and
    rest: "registerAll f s1 rest = Inr s'"
    by (auto split: sum.splits)
  from Cons.IH[OF rest Register_keeps_canonical[OF r Cons.prems(2)]] show ?case .
qed

lemma Register_slot_canonical:
  assumes "Register f s (PtrToPtr T (Some a)) = Inr (s', slot)"
  shows "map_of (objects s') (getID f \<lparr>objType = T, objAddr = a\<rparr>) = Some slot \<and> objType slot = T"
  using assms
proof (cases rule: Register_InrE)
  case (1 T' a')
  then show ?thesis by simp
next
  case (2 T' a')
  then show ?thesis by (simp add: update_conv')
qed

definition canonicalIDs :: "('id, 'p) StoreFuncs \<Rightarrow> ('id, 'p) GenericStore \<Rightarrow> bool" where
  "canonicalIDs f s = (\<forall>i c. map_of (objects s) i = Some c \<longrightarrow> getID f c = i)"

lemma Register_canonicalIDs:
  assumes "Register f s obj = Inr (s', slot)" "canonicalIDs f s"
  shows "canonicalIDs f s'"
  using assms(1)
proof (cases rule: Register_InrE)
  case (1 T a)
  then show ?thesis using assms(2) by (simp add: canonicalIDs_def)
next
  case (2 T a)
  then show ?thesis using assms(2) by (auto simp: canonicalIDs_def update_conv')
qed

lemma registerAll_canonicalIDs:
  "registerAll f s objs = Inr s' \<Longrightarrow> canonicalIDs f s \<Longrightarrow> canonicalIDs f s'"
proof (induction objs arbitrary: s)
  case Nil
  then show ?case by simp
next
  case (Cons obj rest)
  then obtain s1 slot where r: "Register f s obj = Inr (s1, slot)" and
    rest: "registerAll f s1 rest = Inr s'"
    by (auto split: sum.splits)
  from Cons.IH[OF rest Register_canonicalIDs[OF r Cons.prems(2)]] show ?case .
qed

lemma canonicalIDs_new: "canonicalIDs f NewGenericStore"
  by (simp add: canonicalIDs_def NewGenericStore_def)

text \<open>
  C1. In a store built by registrations, register an object, then any further objects, then
  a second object of the same type with the same ID: the second call does not panic and
  leaves in the caller's slot the very instance the first call left in its slot, which is the
  store's canonical object for that ID; and the canonical instances of two distinct IDs are
  distinct.
\<close>

theorem C1_dedup_identity:
  assumes "registerAll f NewGenericStore before = Inr s"
    and "Register f s (PtrToPtr T (Some a1)) = Inr (s1, slot1)"
    and "registerAll f s1 between = Inr s1'"
    and "getID f \<lparr>objType = T, objAddr = a2\<rparr> = getID f \<lparr>objType = T, objAddr = a1\<rparr>"
  shows "\<exists>s2. Register f s1' (PtrToPtr T (Some a2)) = Inr (s2, slot1) \<and>
           map_of (objects s2) (getID f \<lparr>objType = T, objAddr = a1\<rparr>) = Some slot1 \<and>
           (\<forall>i j c c'. i \<noteq> j \<and> map_of (objects s2) i = Some c \<and> map_of (objects s2) j = Some c'
              \<longrightarrow> c \<noteq> c')"
proof -
  have impl: "implementsShared f T"
    using assms(2) by (cases rule: Register_InrE) auto
  from Register_slot_canonical[OF assms(2)]
  have c1: "map_of (objects s1) (getID f \<lparr>objType = T, objAddr = a1\<rparr>) = Some slot1"
    and ty: "objType slot1 = T" by auto
  have c1': "map_of (objects s1') (getID f \<lparr>objType = T, objAddr = a2\<rparr>) = Some slot1"
    using registerAll_keeps_canonical[OF assms(3) c1] assms(4) by simp
  define s2 where "s2 = s1'\<lparr>dependencies := List.insert (getID f \<lparr>objType = T, objAddr = a2\<rparr>) (dependencies s1'),
            recentlyRegisteredSharedObjects :=
              recentlyRegisteredSharedObjects s1' @ [getID f \<lparr>objType = T, objAddr = a2\<rparr>]\<rparr>"
  have r2: "Register f s1' (PtrToPtr T (Some a2)) = Inr (s2, slot1)"
    unfolding s2_def by (rule Register_existing[OF impl c1' ty])
  have can: "map_of (objects s2) (getID f \<lparr>objType = T, objAddr = a1\<rparr>) = Some slot1"
    using c1' assms(4) by (simp add: s2_def)
  have "canonicalIDs f s"
    by (rule registerAll_canonicalIDs[OF assms(1) canonicalIDs_new])
  then have "canonicalIDs f s1" by (rule Register_canonicalIDs[OF assms(2)])
  then have "canonicalIDs f s1'" by (rule registerAll_canonicalIDs[OF assms(3)])
  then have "canonicalIDs f s2" by (rule Register_canonicalIDs[OF r2])
  then have "\<forall>i j c c'. i \<noteq> j \<and> map_of (objects s2) i = Some c \<and> map_of (objects s2) j = Some c'
              \<longrightarrow> c \<noteq> c'"
    unfolding canonicalIDs_def by metis
  then show ?thesis using r2 can by blast
qed


lemmas store_eval = Register_def NewGenericStore_def gatherRequirements_def mapKeys_def Init_def
  StableTopologicalSortWithSortedKeys_def graphAt_def sortSlice_def Let_def

theorem C1_dedup_witness:
  "registerAll (basicFuncs (\<lambda>_. ''h'') (\<lambda>n xs. xs)) NewGenericStore [] = Inr NewGenericStore \<and>
   Register (basicFuncs (\<lambda>_. ''h'') (\<lambda>n xs. xs)) NewGenericStore
       (PtrToPtr ''*basic_example.Counter'' (Some 11)) =
     Inr (NewGenericStore\<lparr>dependencies := [''*basic_example.Counter-h''],
            recentlyRegisteredSharedObjects := [''*basic_example.Counter-h''],
            objects := [(''*basic_example.Counter-h'', \<lparr>objType = ''*basic_example.Counter'', objAddr = 11\<rparr>)],
            objectsRegistrationOrder := [''*basic_example.Counter-h'']\<rparr>,
          \<lparr>objType = ''*basic_example.Counter'', objAddr = 11\<rparr>) \<and>
   (\<exists>s2. Register (basicFuncs (\<lambda>_. ''h'') (\<lambda>n xs. xs))
            (NewGenericStore\<lparr>dependencies := [''*basic_example.Counter-h''],
              recentlyRegisteredSharedObjects := [''*basic_example.Counter-h''],
              objects := [(''*basic_example.Counter-h'', \<lparr>objType = ''*basic_example.Counter'', objAddr = 11\<rparr>)],
              objectsRegistrationOrder := [''*basic_example.Counter-h'']\<rparr>)
            (PtrToPtr ''*basic_example.Counter'' (Some 21)) =
          Inr (s2, \<lparr>objType = ''*basic_example.Counter'', objAddr = 11\<rparr>))"
proof -
  let ?f = "basicFuncs (\<lambda>_. ''h'') (\<lambda>n xs. xs) :: (string, unit) StoreFuncs"
  let ?s1 = "NewGenericStore\<lparr>dependencies := [''*basic_example.Counter-h''],
            recentlyRegisteredSharedObjects := [''*basic_example.Counter-h''],
            objects := [(''*basic_example.Counter-h'', \<lparr>objType = ''*basic_example.Counter'', objAddr = 11\<rparr>)],
            objectsRegistrationOrder := [''*basic_example.Counter-h'']\<rparr> :: (string, unit) GenericStore"
  have h1: "registerAll ?f NewGenericStore [] = Inr NewGenericStore" by simp
  have h2: "Register ?f NewGenericStore (PtrToPtr ''*basic_example.Counter'' (Some 11)) =
     Inr (?s1, \<lparr>objType = ''*basic_example.Counter'', objAddr = 11\<rparr>)"
    by (simp add: store_eval basicFuncs_def)
  have h3: "registerAll ?f ?s1 [] = Inr ?s1" by simp
  have h4: "getID ?f \<lparr>objType = ''*basic_example.Counter'', objAddr = 21\<rparr> =
            getID ?f \<lparr>objType = ''*basic_example.Counter'', objAddr = 11\<rparr>"
    by (simp add: basicFuncs_def)
  from C1_dedup_identity[OF h1 h2 h3 h4] h1 h2 show ?thesis by blast
qed

text \<open>
  C10. A \<open>Register\<close> call whose object's ID already has a canonical object of the slot's
  type returns that object in the caller's slot and changes only the pending-dependency
  set and the recently-registered queue; the canonical map and the registration order are
  as before, and the canonical object stays the same through all later registrations.
\<close>

theorem C10_register_existing_frame:
  assumes "implementsShared f T"
    and "map_of (objects s) (getID f \<lparr>objType = T, objAddr = a\<rparr>) = Some existing"
    and "objType existing = T"
  shows "\<exists>s'. Register f s (PtrToPtr T (Some a)) = Inr (s', existing) \<and>
           objects s' = objects s \<and>
           objectsRegistrationOrder s' = objectsRegistrationOrder s \<and>
           s' = s\<lparr>dependencies := dependencies s',
                  recentlyRegisteredSharedObjects := recentlyRegisteredSharedObjects s'\<rparr> \<and>
           (\<forall>objs s''. registerAll f s' objs = Inr s'' \<longrightarrow>
              map_of (objects s'') (getID f \<lparr>objType = T, objAddr = a\<rparr>) = Some existing)"
proof -
  define s' where "s' = s\<lparr>dependencies := List.insert (getID f \<lparr>objType = T, objAddr = a\<rparr>) (dependencies s),
            recentlyRegisteredSharedObjects :=
              recentlyRegisteredSharedObjects s @ [getID f \<lparr>objType = T, objAddr = a\<rparr>]\<rparr>"
  have r: "Register f s (PtrToPtr T (Some a)) = Inr (s', existing)"
    unfolding s'_def by (rule Register_existing[OF assms])
  have m: "map_of (objects s') (getID f \<lparr>objType = T, objAddr = a\<rparr>) = Some existing"
    using assms(2) by (simp add: s'_def)
  have keep: "\<forall>objs s''. registerAll f s' objs = Inr s'' \<longrightarrow>
              map_of (objects s'') (getID f \<lparr>objType = T, objAddr = a\<rparr>) = Some existing"
    using registerAll_keeps_canonical[OF _ m] by blast
  have "objects s' = objects s" "objectsRegistrationOrder s' = objectsRegistrationOrder s"
    "s' = s\<lparr>dependencies := dependencies s',
                  recentlyRegisteredSharedObjects := recentlyRegisteredSharedObjects s'\<rparr>"
    by (simp_all add: s'_def)
  then show ?thesis using r keep by blast
qed

definition counterStore :: "(string, unit) GenericStore" where
  "counterStore = NewGenericStore\<lparr>dependencies := [''*basic_example.Counter-h''],
            recentlyRegisteredSharedObjects := [''*basic_example.Counter-h''],
            objects := [(''*basic_example.Counter-h'', \<lparr>objType = ''*basic_example.Counter'', objAddr = 11\<rparr>)],
            objectsRegistrationOrder := [''*basic_example.Counter-h'']\<rparr>"

theorem C10_register_existing_witness:
  "implementsShared (basicFuncs (\<lambda>_. ''h'') (\<lambda>n xs. xs)) ''*basic_example.Counter'' \<and>
   map_of (objects counterStore)
     (getID (basicFuncs (\<lambda>_. ''h'') (\<lambda>n xs. xs)) \<lparr>objType = ''*basic_example.Counter'', objAddr = 21\<rparr>)
     = Some \<lparr>objType = ''*basic_example.Counter'', objAddr = 11\<rparr> \<and>
   (\<exists>s'. Register (basicFuncs (\<lambda>_. ''h'') (\<lambda>n xs. xs)) counterStore
            (PtrToPtr ''*basic_example.Counter'' (Some 21)) =
          Inr (s', \<lparr>objType = ''*basic_example.Counter'', objAddr = 11\<rparr>) \<and>
        objects s' = objects counterStore \<and>
        objectsRegistrationOrder s' = objectsRegistrationOrder counterStore)"
proof -
  let ?f = "basicFuncs (\<lambda>_. ''h'') (\<lambda>n xs. xs) :: (string, unit) StoreFuncs"
  have h1: "implementsShared ?f ''*basic_example.Counter''" by (simp add: basicFuncs_def)
  have h2: "map_of (objects counterStore)
     (getID ?f \<lparr>objType = ''*basic_example.Counter'', objAddr = 21\<rparr>)
     = Some \<lparr>objType = ''*basic_example.Counter'', objAddr = 11\<rparr>"
    by (simp add: basicFuncs_def counterStore_def NewGenericStore_def)
  have h3: "objType \<lparr>objType = ''*basic_example.Counter'', objAddr = 11\<rparr> = ''*basic_example.Counter''"
    by simp
  from C10_register_existing_frame[OF h1 h2 h3] h1 h2 show ?thesis by blast
qed


end
